theory Spec2Isabelle
  imports Main "HOL-Library.AList"
begin

section \<open>Python values and the object store\<close>

text \<open>
  The state manager pickles one object graph to the cache file and unpickles it again on
  every read. Pickling keeps sharing: two references to one dictionary are one dictionary
  again after a reload. The methods mutate dictionaries in place (\<^verbatim>\<open>data[ns].update(..)\<close>,
  \<^verbatim>\<open>del data[ns][v]\<close>), so the persisted data is modelled as a store of objects
  addressed by position, and a reference is an address.

  The values are \<^verbatim>\<open>None\<close>, integers, strings and dictionaries with string keys; a dictionary is
  a list of entries in insertion order, and the flag of \<open>PDict\<close> says whether it is a
  \<^verbatim>\<open>collections.defaultdict(dict)\<close>.
\<close>

type_synonym addr = nat

datatype pyobj =
    PNone
  | PInt int
  | PStr string
  | PDict bool "(string \<times> addr) list"

type_synonym heap = "pyobj list"

text \<open>A value as a caller writes it down, before it lives in the store.\<close>

datatype pyval =
    VNone
  | VInt int
  | VStr string
  | VDict bool "(string \<times> pyval) list"

datatype error =
    EOFError
  | UnpicklingError
  | KeyError
  | TypeError
  | AttributeError
  | ValueError
  | IndexError

text \<open>
  Building the objects of a value in the store: the components first, the object itself
  last, each at the next free address.
\<close>

fun alloc :: "pyval \<Rightarrow> heap \<Rightarrow> addr \<times> heap"
  and alloc_entries :: "(string \<times> pyval) list \<Rightarrow> heap \<Rightarrow> (string \<times> addr) list \<times> heap"
where
  "alloc VNone h = (length h, h @ [PNone])"
| "alloc (VInt i) h = (length h, h @ [PInt i])"
| "alloc (VStr s) h = (length h, h @ [PStr s])"
| "alloc (VDict dd kvs) h =
     (case alloc_entries kvs h of (es, h') \<Rightarrow> (length h', h' @ [PDict dd es]))"
| "alloc_entries [] h = ([], h)"
| "alloc_entries (kv # kvs) h =
     (case alloc (snd kv) h of (a, h1) \<Rightarrow>
        (case alloc_entries kvs h1 of (es, h2) \<Rightarrow> ((fst kv, a) # es, h2)))"

text \<open>\<^verbatim>\<open>sub in s\<close> on strings: \<open>sub\<close> occurs in \<open>s\<close> as a contiguous piece.\<close>

fun is_substr :: "string \<Rightarrow> string \<Rightarrow> bool" where
  "is_substr sub [] = (sub = [])"
| "is_substr sub (c # cs) = (take (length sub) (c # cs) = sub \<or> is_substr sub cs)"

text \<open>\<^verbatim>\<open>key in obj\<close>: membership of a key in a dictionary, of a piece in a string; integers and
  \<^verbatim>\<open>None\<close> are not containers.\<close>

fun py_contains :: "string \<Rightarrow> pyobj \<Rightarrow> error + bool" where
  "py_contains k (PDict dd es) = Inr (map_of es k \<noteq> None)"
| "py_contains k (PStr s) = Inr (is_substr k s)"
| "py_contains k (PInt i) = Inl TypeError"
| "py_contains k PNone = Inl TypeError"

text \<open>\<^verbatim>\<open>d.update(other)\<close> for a dictionary \<open>other\<close>: every entry of \<open>other\<close> is stored in
  \<open>d\<close>, in order; a key that \<open>d\<close> has keeps its place, a new key goes to the end.\<close>

definition entries_update :: "(string \<times> addr) list \<Rightarrow> (string \<times> addr) list \<Rightarrow> (string \<times> addr) list" where
  "entries_update other es = fold (\<lambda>kv. AList.update (fst kv) (snd kv)) other es"

text \<open>What \<^verbatim>\<open>dict.update\<close> makes of its argument: the entries of a dictionary, nothing for the
  empty string, \<^verbatim>\<open>ValueError\<close> for any other string (its elements have length one, not two)
  and \<^verbatim>\<open>TypeError\<close> for what is not iterable.\<close>

fun update_arg :: "pyobj \<Rightarrow> error + (string \<times> addr) list" where
  "update_arg (PDict dd es) = Inr es"
| "update_arg (PStr s) = (if s = [] then Inr [] else Inl ValueError)"
| "update_arg (PInt i) = Inl TypeError"
| "update_arg PNone = Inl TypeError"

section \<open>The state manager\<close>

text \<open>
  What \<^verbatim>\<open>pickling.load\<close> makes of the bytes of the cache file: an object graph with its root,
  or an exception.
\<close>

datatype pickled =
    Unpickles heap addr
  | Raises error

text \<open>The \<^verbatim>\<open>StateManager\<close> with the file at \<^verbatim>\<open>cache / cache_filename\<close>; \<open>None\<close>: no such file.\<close>

record StateManager =
  cache_filename :: string
  cache_file :: "pickled option"

text \<open>A new \<^verbatim>\<open>defaultdict(dict)\<close> in a store of its own.\<close>

definition empty_data :: "heap \<times> addr" where
  "empty_data = ([PDict True []], 0)"

text \<open>\<^verbatim>\<open>_load\<close>: only \<^verbatim>\<open>EOFError\<close> is caught.\<close>

fun priv_load :: "pickled \<Rightarrow> error + heap \<times> addr" where
  "priv_load (Unpickles h r) = Inr (h, r)"
| "priv_load (Raises e) = (if e = EOFError then Inr empty_data else Inl e)"

text \<open>\<^verbatim>\<open>load\<close>: the unpickled data, with the entries of \<^verbatim>\<open>data["global"]\<close> stored at the
  top level as well.\<close>

definition load :: "StateManager \<Rightarrow> error + heap \<times> addr" where
  "load s =
     (case cache_file s of
        None \<Rightarrow> Inr empty_data
      | Some f \<Rightarrow>
          (case priv_load f of
             Inl e \<Rightarrow> Inl e
           | Inr (h, r) \<Rightarrow>
               (case py_contains ''global'' (h ! r) of
                  Inl e \<Rightarrow> Inl e
                | Inr False \<Rightarrow> Inr (h, r)
                | Inr True \<Rightarrow>
                    (case h ! r of
                       PDict dd es \<Rightarrow>
                         (case update_arg (h ! the (map_of es ''global'')) of
                            Inl e \<Rightarrow> Inl e
                          | Inr ges \<Rightarrow> Inr (h[r := PDict dd (entries_update ges es)], r))
                     | _ \<Rightarrow> Inl AttributeError))))"

text \<open>\<^verbatim>\<open>_save\<close>: the file holds the pickled data.\<close>

definition priv_save :: "heap \<times> addr \<Rightarrow> StateManager \<Rightarrow> StateManager" where
  "priv_save d s = s\<lparr>cache_file := Some (Unpickles (fst d) (snd d))\<rparr>"

text \<open>The keys of \<^verbatim>\<open>{namespace: variables for namespace in namespaces}\<close>: each namespace once,
  in the order of first occurrence.\<close>

definition dict_keys :: "string list \<Rightarrow> string list" where
  "dict_keys nss = rev (remdups (rev nss))"

text \<open>One round of the loop of \<^verbatim>\<open>save\<close>; \<open>va\<close> is the \<^verbatim>\<open>variables\<close> dictionary.\<close>

definition save_step :: "addr \<Rightarrow> heap \<times> addr \<Rightarrow> string \<Rightarrow> error + heap \<times> addr" where
  "save_step va d ns =
     (case d of (h, r) \<Rightarrow>
        (case h ! r of
           PDict dd es \<Rightarrow>
             (case map_of es ns of
                Some a \<Rightarrow>
                  (case h ! a of
                     PDict dd' es' \<Rightarrow>
                       (case update_arg (h ! va) of
                          Inl e \<Rightarrow> Inl e
                        | Inr ves \<Rightarrow> Inr (h[a := PDict dd' (entries_update ves es')], r))
                   | _ \<Rightarrow> Inl AttributeError)
              | None \<Rightarrow> Inr (h[r := PDict dd (AList.update ns va es)], r))
         | _ \<Rightarrow> Inl TypeError))"

fun save_loop :: "addr \<Rightarrow> heap \<times> addr \<Rightarrow> string list \<Rightarrow> error + heap \<times> addr" where
  "save_loop va d [] = Inr d"
| "save_loop va d (ns # nss) =
     (case save_step va d ns of Inl e \<Rightarrow> Inl e | Inr d' \<Rightarrow> save_loop va d' nss)"

definition save :: "(string \<times> pyval) list option \<Rightarrow> string list option \<Rightarrow> StateManager
    \<Rightarrow> error + StateManager" where
  "save variables namespaces s =
     (case variables of
        None \<Rightarrow> Inr s
      | Some [] \<Rightarrow> Inr s
      | Some vs \<Rightarrow>
          (case load s of
             Inl e \<Rightarrow> Inl e
           | Inr (h, r) \<Rightarrow>
               (case alloc (VDict False vs) h of (va, h1) \<Rightarrow>
                  (case save_loop va (h1, r)
                          (dict_keys (case namespaces of None \<Rightarrow> [''global''] | Some nss \<Rightarrow> nss)) of
                     Inl e \<Rightarrow> Inl e
                   | Inr d \<Rightarrow> Inr (priv_save d s)))))"

definition change_page :: "int \<Rightarrow> StateManager \<Rightarrow> error + StateManager" where
  "change_page page s = save (Some [(''current_page'', VInt page)]) (Some [''global'']) s"

text \<open>\<^verbatim>\<open>read_current_page\<close>. \<^verbatim>\<open>load()["global"]\<close> on a \<^verbatim>\<open>defaultdict(dict)\<close> without
  that key yields a new empty dictionary, on a plain dictionary \<^verbatim>\<open>KeyError\<close>. Python's
  \<^verbatim>\<open>int\<close> on a string is the parameter \<open>str_int\<close>.\<close>

fun py_int :: "(string \<Rightarrow> error + int) \<Rightarrow> pyobj \<Rightarrow> error + int" where
  "py_int str_int (PInt i) = Inr i"
| "py_int str_int (PStr s) = str_int s"
| "py_int str_int PNone = Inl TypeError"
| "py_int str_int (PDict dd es) = Inl TypeError"

definition subscript_global :: "heap \<times> addr \<Rightarrow> error + pyobj" where
  "subscript_global d =
     (case d of (h, r) \<Rightarrow>
        (case h ! r of
           PDict dd es \<Rightarrow>
             (case map_of es ''global'' of
                Some g \<Rightarrow> Inr (h ! g)
              | None \<Rightarrow> if dd then Inr (PDict False []) else Inl KeyError)
         | _ \<Rightarrow> Inl TypeError))"

definition read_current_page :: "(string \<Rightarrow> error + int) \<Rightarrow> StateManager \<Rightarrow> error + int" where
  "read_current_page str_int s =
     (case load s of
        Inl e \<Rightarrow> Inl e
      | Inr (h, r) \<Rightarrow>
          (case subscript_global (h, r) of
             Inl e \<Rightarrow> Inl e
           | Inr data \<Rightarrow>
               (case py_contains ''current_page'' data of
                  Inl e \<Rightarrow> Inl e
                | Inr False \<Rightarrow> Inr 0
                | Inr True \<Rightarrow>
                    (case data of
                       PDict dd es \<Rightarrow> py_int str_int (h ! the (map_of es ''current_page''))
                     | _ \<Rightarrow> Inl TypeError))))"

text \<open>\<^verbatim>\<open>is_logged_in\<close>: \<^verbatim>\<open>load().get('session', '')\<close> is evaluated once for each key; the
  second test is skipped when the first is false.\<close>

definition get_session :: "heap \<times> addr \<Rightarrow> error + pyobj" where
  "get_session d =
     (case d of (h, r) \<Rightarrow>
        (case h ! r of
           PDict dd es \<Rightarrow>
             (case map_of es ''session'' of Some a \<Rightarrow> Inr (h ! a) | None \<Rightarrow> Inr (PStr []))
         | _ \<Rightarrow> Inl AttributeError))"

definition session_has :: "string \<Rightarrow> StateManager \<Rightarrow> error + bool" where
  "session_has k s =
     (case load s of
        Inl e \<Rightarrow> Inl e
      | Inr d \<Rightarrow> (case get_session d of Inl e \<Rightarrow> Inl e | Inr obj \<Rightarrow> py_contains k obj))"

definition is_logged_in :: "StateManager \<Rightarrow> error + bool" where
  "is_logged_in s =
     (case session_has ''username'' s of
        Inl e \<Rightarrow> Inl e
      | Inr False \<Rightarrow> Inr False
      | Inr True \<Rightarrow> session_has ''token'' s)"

text \<open>\<^verbatim>\<open>clear_cache\<close>. A loop body is \<^verbatim>\<open>try: del ... except KeyError: ...\<close>: a
  \<^verbatim>\<open>KeyError\<close> leaves the data as it is, any other exception leaves the method.\<close>

fun fold_err :: "('b \<Rightarrow> 'a \<Rightarrow> error + 'a) \<Rightarrow> 'b list \<Rightarrow> 'a \<Rightarrow> error + 'a" where
  "fold_err f [] d = Inr d"
| "fold_err f (x # xs) d = (case f x d of Inl e \<Rightarrow> Inl e | Inr d' \<Rightarrow> fold_err f xs d')"

fun del_item :: "pyobj \<Rightarrow> string \<Rightarrow> error + pyobj" where
  "del_item (PDict dd es) k =
     (if map_of es k = None then Inl KeyError else Inr (PDict dd (AList.delete k es)))"
| "del_item (PStr s) k = Inl TypeError"
| "del_item (PInt i) k = Inl TypeError"
| "del_item PNone k = Inl TypeError"

fun root_keys :: "pyobj \<Rightarrow> error + string list" where
  "root_keys (PDict dd es) = Inr (map fst es)"
| "root_keys (PStr s) = Inl AttributeError"
| "root_keys (PInt i) = Inl AttributeError"
| "root_keys PNone = Inl AttributeError"

text \<open>\<^verbatim>\<open>del data[namespace]\<close> under the \<^verbatim>\<open>try\<close>.\<close>

definition del_namespace :: "string \<Rightarrow> heap \<times> addr \<Rightarrow> error + heap \<times> addr" where
  "del_namespace ns d =
     (case d of (h, r) \<Rightarrow>
        (case del_item (h ! r) ns of
           Inl e \<Rightarrow> if e = KeyError then Inr (h, r) else Inl e
         | Inr obj \<Rightarrow> Inr (h[r := obj], r)))"

text \<open>\<^verbatim>\<open>del data[namespace][variable]\<close> under the \<^verbatim>\<open>try\<close>. Reading a missing
  \<^verbatim>\<open>data[namespace]\<close> raises \<^verbatim>\<open>KeyError\<close> on a plain dictionary; a \<^verbatim>\<open>defaultdict(dict)\<close>
  stores a new empty dictionary first, and the deletion from it raises \<^verbatim>\<open>KeyError\<close>.\<close>

definition del_variable :: "string \<Rightarrow> string \<Rightarrow> heap \<times> addr \<Rightarrow> error + heap \<times> addr" where
  "del_variable ns v d =
     (case d of (h, r) \<Rightarrow>
        (case h ! r of
           PDict dd es \<Rightarrow>
             (case map_of es ns of
                Some a \<Rightarrow>
                  (case del_item (h ! a) v of
                     Inl e \<Rightarrow> if e = KeyError then Inr (h, r) else Inl e
                   | Inr obj \<Rightarrow> Inr (h[a := obj], r))
              | None \<Rightarrow>
                  if dd then Inr ((h @ [PDict False []])[r := PDict dd (AList.update ns (length h) es)], r)
                  else Inr (h, r))
         | _ \<Rightarrow> Inl TypeError))"

text \<open>Truth of an optional list or dictionary argument: neither \<^verbatim>\<open>None\<close> nor empty.\<close>

fun truthy :: "'a list option \<Rightarrow> bool" where
  "truthy None = False"
| "truthy (Some xs) = (xs \<noteq> [])"

definition clear_cache :: "(string \<times> pyval) list option \<Rightarrow> string list option \<Rightarrow> bool
    \<Rightarrow> StateManager \<Rightarrow> error + StateManager" where
  "clear_cache variables namespaces all_variables s =
     (case load s of
        Inl e \<Rightarrow> Inl e
      | Inr (h, r) \<Rightarrow>
          (case
             (if all_variables then
                (case root_keys (h ! r) of
                   Inl e \<Rightarrow> Inl e
                 | Inr ks \<Rightarrow> fold_err del_namespace ks (h, r))
              else if truthy namespaces \<and> \<not> truthy variables then
                fold_err del_namespace (the namespaces) (h, r)
              else if truthy variables then
                (case root_keys (h ! r) of
                   Inl e \<Rightarrow> Inl e
                 | Inr ks \<Rightarrow>
                     fold_err (\<lambda>ns. fold_err (del_variable ns) (map fst (the variables))) ks (h, r))
              else Inr (h, r))
           of
             Inl e \<Rightarrow> Inl e
           | Inr d \<Rightarrow>
               Inr (if all_variables \<and> cache_filename s \<noteq> []
                    then (priv_save d s)\<lparr>cache_file := None\<rparr>
                    else priv_save d s)))"

section \<open>The page router\<close>

text \<open>
  A page function is a value of the type \<open>'f\<close>; what calling it does to the router is the
  parameter \<open>call\<close> of the functions that call one. The button labels of \<^verbatim>\<open>MultiPage\<close> are
  text on the screen only and have no field here.
\<close>

datatype 'f App = App (name: string) (func: 'f)

record 'f MultiPage =
  apps :: "'f App list"
  initial_page :: "'f App option"
  header :: "'f App option"
  footer :: "'f App option"
  navbar_extra :: "'f App option"
  navbar_style :: string
  hide_menu :: bool
  hide_navigation :: bool
  state_manager :: StateManager

text \<open>\<^verbatim>\<open>add_app\<close>. An \<^verbatim>\<open>App\<close> is a tuple of two fields and so never false:
  \<^verbatim>\<open>not self.initial_page\<close> holds exactly when no initial page is set.\<close>

definition add_app :: "string \<Rightarrow> 'f \<Rightarrow> bool \<Rightarrow> 'f MultiPage \<Rightarrow> 'f MultiPage" where
  "add_app nm f ip mp =
     (if ip \<and> initial_page mp = None
      then mp\<lparr>initial_page := Some (App ''__INITIALPAGE__'' f)\<rparr>
      else mp\<lparr>apps := apps mp @ [App nm f]\<rparr>)"

text \<open>A sequence of \<^verbatim>\<open>add_app\<close> calls, each given by its three arguments.\<close>

fun add_apps :: "(string \<times> 'f \<times> bool) list \<Rightarrow> 'f MultiPage \<Rightarrow> 'f MultiPage" where
  "add_apps [] mp = mp"
| "add_apps (c # cs) mp = add_apps cs (add_app (fst c) (fst (snd c)) (snd (snd c)) mp)"

text \<open>\<^verbatim>\<open>xs[i]\<close> on a list: a negative index counts from the end.\<close>

definition py_index :: "'a list \<Rightarrow> int \<Rightarrow> error + 'a" where
  "py_index xs i =
     (if 0 \<le> i \<and> i < int (length xs) then Inr (xs ! nat i)
      else if - int (length xs) \<le> i \<and> i < 0 then Inr (xs ! nat (int (length xs) + i))
      else Inl IndexError)"

definition bind_err :: "error + 'a \<Rightarrow> ('a \<Rightarrow> error + 'b) \<Rightarrow> error + 'b" where
  "bind_err m f = (case m of Inl e \<Rightarrow> Inl e | Inr x \<Rightarrow> f x)"

definition mp_change_page :: "int \<Rightarrow> 'f MultiPage \<Rightarrow> error + 'f MultiPage" where
  "mp_change_page page mp =
     bind_err (change_page page (state_manager mp)) (\<lambda>s. Inr (mp\<lparr>state_manager := s\<rparr>))"

text \<open>What the user does in one run: the buttons pressed and the position chosen in the
  select box.\<close>

record ui =
  reset_clicked :: bool
  previous_clicked :: bool
  next_clicked :: bool
  nav_clicked :: "nat \<Rightarrow> bool"
  selected :: nat

definition render_next_previous :: "(string \<Rightarrow> error + int) \<Rightarrow> ui \<Rightarrow> 'f MultiPage
    \<Rightarrow> error + 'f MultiPage" where
  "render_next_previous str_int u mp =
     bind_err (read_current_page str_int (state_manager mp)) (\<lambda>page.
     bind_err (if reset_clicked u then mp_change_page (- 1) mp else Inr mp) (\<lambda>mp1.
     bind_err (if previous_clicked u
               then bind_err (mp_change_page (max 0 (page - 1)) mp1)
                      (\<lambda>m. Inr (max 0 (page - 1), m))
               else Inr (page, mp1)) (\<lambda>(page2, mp2).
     if next_clicked u
     then mp_change_page (min (int (length (apps mp2)) - 1) (page2 + 1)) mp2
     else Inr mp2)))"

text \<open>The buttons of the navigation bar, one for each page.\<close>

fun nav_buttons :: "ui \<Rightarrow> nat list \<Rightarrow> 'f MultiPage \<Rightarrow> error + 'f MultiPage" where
  "nav_buttons u [] mp = Inr mp"
| "nav_buttons u (i # is) mp =
     bind_err (if nav_clicked u i then mp_change_page (int i) mp else Inr mp) (nav_buttons u is)"

text \<open>\<^verbatim>\<open>names.index(x)\<close>: the first position of \<open>x\<close>.\<close>

fun list_index :: "'a list \<Rightarrow> 'a \<Rightarrow> error + int" where
  "list_index [] x = Inl ValueError"
| "list_index (y # ys) x =
     (if y = x then Inr 0 else bind_err (list_index ys x) (\<lambda>i. Inr (i + 1)))"

definition render_navbar :: "('f \<Rightarrow> 'f MultiPage \<Rightarrow> error + 'f MultiPage)
    \<Rightarrow> (string \<Rightarrow> error + int) \<Rightarrow> ui \<Rightarrow> 'f MultiPage \<Rightarrow> error + 'f MultiPage" where
  "render_navbar call str_int u mp =
     bind_err (if \<not> hide_navigation mp then render_next_previous str_int u mp else Inr mp) (\<lambda>mp1.
     bind_err (Inr (if navbar_style mp1 \<notin> set [''VerticalButton'', ''HorizontalButton'', ''SelectBox'']
                    then mp1\<lparr>navbar_style := ''VerticalButton''\<rparr> else mp1)) (\<lambda>mp2.
     bind_err (if is_substr ''Button'' (navbar_style mp2)
                  \<and> (navbar_style mp2 = ''HorizontalButton'' \<or> navbar_style mp2 = ''VerticalButton'')
               then nav_buttons u [0 ..< length (apps mp2)] mp2
               else Inr mp2) (\<lambda>mp3.
     bind_err (if navbar_style mp3 = ''SelectBox''
               then (if selected u < length (apps mp3)
                     then bind_err (list_index (map name (apps mp3)) (map name (apps mp3) ! selected u))
                            (\<lambda>next_page. mp_change_page next_page mp3)
                     else Inl ValueError)
               else Inr mp3) (\<lambda>mp4.
     case navbar_extra mp4 of None \<Rightarrow> Inr mp4 | Some a \<Rightarrow> call (func a) mp4))))"

text \<open>Calling the function of a page that may be unset (\<^verbatim>\<open>None.func\<close> raises
  \<^verbatim>\<open>AttributeError\<close>); the pages called so far are kept in order.\<close>

definition invoke :: "('f \<Rightarrow> 'f MultiPage \<Rightarrow> error + 'f MultiPage) \<Rightarrow> 'f App option
    \<Rightarrow> 'f App list \<times> 'f MultiPage \<Rightarrow> error + 'f App list \<times> 'f MultiPage" where
  "invoke call ao t =
     (case ao of
        None \<Rightarrow> Inl AttributeError
      | Some a \<Rightarrow> bind_err (call (func a) (snd t)) (\<lambda>mp'. Inr (fst t @ [a], mp')))"

text \<open>The choice of the page in \<^verbatim>\<open>_run\<close>: the stored index, zero when it is past the end
  of the list.\<close>

definition current_app :: "(string \<Rightarrow> error + int) \<Rightarrow> 'f MultiPage \<Rightarrow> error + 'f App" where
  "current_app str_int mp =
     bind_err (read_current_page str_int (state_manager mp)) (\<lambda>page.
     py_index (apps mp) (if int (length (apps mp)) \<le> page then 0 else page))"

text \<open>\<^verbatim>\<open>_run\<close>: the result is the list of the pages called, in order, with the router after
  them.\<close>

definition private_run :: "('f \<Rightarrow> 'f MultiPage \<Rightarrow> error + 'f MultiPage)
    \<Rightarrow> (string \<Rightarrow> error + int) \<Rightarrow> ui \<Rightarrow> 'f MultiPage \<Rightarrow> error + 'f App list \<times> 'f MultiPage" where
  "private_run call str_int u mp =
     bind_err (is_logged_in (state_manager mp)) (\<lambda>shown.
     bind_err (is_logged_in (state_manager mp)) (\<lambda>logged.
     if \<not> logged then invoke call (initial_page mp) ([], mp)
     else
       bind_err (case header mp of None \<Rightarrow> Inr ([], mp) | Some a \<Rightarrow> invoke call (Some a) ([], mp)) (\<lambda>t1.
       bind_err (render_navbar call str_int u (snd t1)) (\<lambda>mp2.
       bind_err (is_logged_in (state_manager mp2)) (\<lambda>still.
       if \<not> still then invoke call (initial_page mp2) (fst t1, mp2)
       else
         bind_err (current_app str_int mp2) (\<lambda>app.
         bind_err (invoke call (Some app) (fst t1, mp2)) (\<lambda>t3.
         case footer (snd t3) of None \<Rightarrow> Inr t3 | Some a \<Rightarrow> invoke call (Some a) t3)))))))"

text \<open>\<^verbatim>\<open>login\<close> and \<^verbatim>\<open>logout\<close>, up to the \<^verbatim>\<open>st.rerun()\<close> that ends the run.\<close>

definition login :: "string \<Rightarrow> string \<Rightarrow> 'f MultiPage \<Rightarrow> error + 'f MultiPage" where
  "login username token mp =
     bind_err (save (Some [(''username'', VStr username), (''token'', VStr token)]) (Some [''session''])
                 (state_manager mp)) (\<lambda>s.
     mp_change_page 0 (mp\<lparr>state_manager := s\<rparr>))"

definition logout :: "'f MultiPage \<Rightarrow> error + 'f MultiPage" where
  "logout mp =
     bind_err (clear_cache None None True (state_manager mp)) (\<lambda>s.
     mp_change_page (- 1) (mp\<lparr>state_manager := s\<rparr>))"

section \<open>Well-formed data\<close>

text \<open>A dictionary written down by a caller has each key once, at every level.\<close>

fun wf_val :: "pyval \<Rightarrow> bool"
  and wf_vals :: "(string \<times> pyval) list \<Rightarrow> bool"
where
  "wf_val VNone = True"
| "wf_val (VInt i) = True"
| "wf_val (VStr s) = True"
| "wf_val (VDict dd kvs) = (distinct (map fst kvs) \<and> wf_vals kvs)"
| "wf_vals [] = True"
| "wf_vals (kv # kvs) = (wf_val (snd kv) \<and> wf_vals kvs)"

text \<open>The object at an address of the store is the value \<open>v\<close>, component by component.\<close>

fun repr :: "heap \<Rightarrow> addr \<Rightarrow> pyval \<Rightarrow> bool"
  and repr_entries :: "heap \<Rightarrow> (string \<times> addr) list \<Rightarrow> (string \<times> pyval) list \<Rightarrow> bool"
where
  "repr h a VNone = (a < length h \<and> h ! a = PNone)"
| "repr h a (VInt i) = (a < length h \<and> h ! a = PInt i)"
| "repr h a (VStr s) = (a < length h \<and> h ! a = PStr s)"
| "repr h a (VDict dd kvs) =
     (a < length h \<and> (case h ! a of PDict dd' es \<Rightarrow> dd' = dd \<and> repr_entries h es kvs | _ \<Rightarrow> False))"
| "repr_entries h [] [] = True"
| "repr_entries h (e # es) (kv # kvs) =
     (fst e = fst kv \<and> repr h (snd e) (snd kv) \<and> repr_entries h es kvs)"
| "repr_entries h [] (kv # kvs) = False"
| "repr_entries h (e # es) [] = False"

text \<open>A store is well formed when every dictionary in it has each key once and refers to
  objects of the store only.\<close>

fun obj_ok :: "nat \<Rightarrow> pyobj \<Rightarrow> bool" where
  "obj_ok n (PDict dd es) = (distinct (map fst es) \<and> (\<forall>e\<in>set es. snd e < n))"
| "obj_ok n (PStr s) = True"
| "obj_ok n (PInt i) = True"
| "obj_ok n PNone = True"

definition wf_heap :: "heap \<Rightarrow> bool" where
  "wf_heap h = list_all (obj_ok (length h)) h"

fun is_dict :: "pyobj \<Rightarrow> bool" where
  "is_dict (PDict dd es) = True"
| "is_dict (PStr s) = False"
| "is_dict (PInt i) = False"
| "is_dict PNone = False"

text \<open>Data whose root is a dictionary in a well-formed store: a mapping from strings to
  values.\<close>

definition wf_data :: "heap \<times> addr \<Rightarrow> bool" where
  "wf_data d = (wf_heap (fst d) \<and> snd d < length (fst d) \<and> is_dict (fst d ! snd d))"

section \<open>Starting points\<close>

text \<open>A state manager before the first write, a router as the dataclass creates it, and a
  run in which the user touches nothing.\<close>

definition no_file :: StateManager where
  "no_file = \<lparr>cache_filename = ''data.pkl'', cache_file = None\<rparr>"

definition new_router :: "'f MultiPage" where
  "new_router = \<lparr>apps = [], initial_page = None, header = None, footer = None,
     navbar_extra = None, navbar_style = ''Button'', hide_menu = False, hide_navigation = False,
     state_manager = no_file\<rparr>"

definition no_input :: ui where
  "no_input = \<lparr>reset_clicked = False, previous_clicked = False, next_clicked = False,
     nav_clicked = (\<lambda>i. False), selected = 0\<rparr>"

text \<open>A router with two pages, and the same router after \<^verbatim>\<open>login("u", "t")\<close> and
  \<^verbatim>\<open>change_page(1)\<close>.\<close>

definition two_pages :: "nat MultiPage" where
  "two_pages = add_apps [(''home'', 10, False), (''about'', 20, False)] new_router"

definition logged_in_router :: "nat MultiPage" where
  "logged_in_router = \<lparr>apps = [App ''home'' 10, App ''about'' 20], initial_page = None,
     header = None, footer = None, navbar_extra = None, navbar_style = ''Button'',
     hide_menu = False, hide_navigation = False,
     state_manager = \<lparr>cache_filename = ''data.pkl'', cache_file = Some (Unpickles
       [PDict True [(''session'', 3), (''global'', 5), (''current_page'', 4)],
        PStr ''u'', PStr ''t'', PDict False [(''username'', 1), (''token'', 2)], PInt 0,
        PDict False [(''current_page'', 6)], PInt 1, PDict False [(''current_page'', 6)]] 0)\<rparr>\<rparr>"

section \<open>Auxiliary notions\<close>

text \<open>An object built by \<open>alloc\<close> between two sizes of the store refers to objects built
  there too.\<close>


fun fresh_ok :: "nat \<Rightarrow> nat \<Rightarrow> pyobj \<Rightarrow> bool" where
  "fresh_ok lo hi (PDict dd es) = (distinct (map fst es) \<and> (\<forall>e\<in>set es. lo \<le> snd e \<and> snd e < hi))"
| "fresh_ok lo hi obj = True"

text \<open>The cache file is absent, or it unpickles to a mapping from strings to values.\<close>


fun pickled_ok :: "pickled \<Rightarrow> bool" where
  "pickled_ok (Unpickles h r) = wf_data (h, r)"
| "pickled_ok (Raises e) = False"

definition persisted_ok :: "StateManager \<Rightarrow> bool" where
  "persisted_ok s = (case cache_file s of None \<Rightarrow> True | Some f \<Rightarrow> pickled_ok f)"

text \<open>The cache file is absent, or it unpickles to a mapping in which every top-level value
  is a dictionary: a mapping from namespaces to mappings.\<close>

fun top_level_dicts :: "pickled \<Rightarrow> bool" where
  "top_level_dicts (Unpickles h r) =
     (case h ! r of PDict dd es \<Rightarrow> (\<forall>e\<in>set es. is_dict (h ! snd e)) | _ \<Rightarrow> False)"
| "top_level_dicts (Raises e) = False"

definition namespaces_only :: "StateManager \<Rightarrow> bool" where
  "namespaces_only s = (case cache_file s of None \<Rightarrow> True | Some f \<Rightarrow> top_level_dicts f)"

text \<open>The calls that write the cache file, and a sequence of them; a call that raises
  leaves the file as it was.\<close>


datatype op =
    Save "(string \<times> pyval) list option" "string list option"
  | ChangePage int
  | ClearCache "(string \<times> pyval) list option" "string list option" bool

fun apply_op :: "op \<Rightarrow> StateManager \<Rightarrow> error + StateManager" where
  "apply_op (Save variables namespaces) s = save variables namespaces s"
| "apply_op (ChangePage page) s = change_page page s"
| "apply_op (ClearCache variables namespaces all_variables) s =
     clear_cache variables namespaces all_variables s"

fun run_ops :: "op list \<Rightarrow> StateManager \<Rightarrow> StateManager" where
  "run_ops [] s = s"
| "run_ops (x # xs) s = run_ops xs (case apply_op x s of Inl e \<Rightarrow> s | Inr s' \<Rightarrow> s')"

fun op_ok :: "op \<Rightarrow> bool" where
  "op_ok (Save variables namespaces) = (case variables of None \<Rightarrow> True | Some vs \<Rightarrow> wf_val (VDict False vs))"
| "op_ok (ChangePage page) = True"
| "op_ok (ClearCache variables namespaces all_variables) = True"

text \<open>The branches of \<^verbatim>\<open>clear_cache\<close> between \<^verbatim>\<open>load\<close> and \<^verbatim>\<open>_save\<close>.\<close>


definition clear_body :: "(string \<times> pyval) list option \<Rightarrow> string list option \<Rightarrow> bool
    \<Rightarrow> heap \<times> addr \<Rightarrow> error + heap \<times> addr" where
  "clear_body variables namespaces all_variables d =
     (if all_variables then
        (case root_keys (fst d ! snd d) of
           Inl e \<Rightarrow> Inl e
         | Inr ks \<Rightarrow> fold_err del_namespace ks d)
      else if truthy namespaces \<and> \<not> truthy variables then
        fold_err del_namespace (the namespaces) d
      else if truthy variables then
        (case root_keys (fst d ! snd d) of
           Inl e \<Rightarrow> Inl e
         | Inr ks \<Rightarrow>
             fold_err (\<lambda>ns. fold_err (del_variable ns) (map fst (the variables))) ks d)
      else Inr d)"

text \<open>A dictionary after \<^verbatim>\<open>update\<close> with the entries \<open>ves\<close>.\<close>

fun updated_with :: "(string \<times> addr) list \<Rightarrow> pyobj \<Rightarrow> pyobj" where
  "updated_with ves (PDict dd es) = PDict dd (entries_update ves es)"
| "updated_with ves (PStr s) = PStr s"
| "updated_with ves (PInt i) = PInt i"
| "updated_with ves PNone = PNone"

text \<open>The state after \<^verbatim>\<open>login("u", "t")\<close> on a new router and
  \<^verbatim>\<open>save({"session": 0})\<close>: a session namespace with both keys, and a global variable named
  \<^verbatim>\<open>session\<close>.\<close>

definition session_shadowed :: StateManager where
  "session_shadowed = \<lparr>cache_filename = ''data.pkl'', cache_file = Some (Unpickles
     [PDict True [(''session'', 3), (''global'', 5), (''current_page'', 4)],
      PStr ''u'', PStr ''t'', PDict False [(''username'', 1), (''token'', 2)], PInt 0,
      PDict False [(''current_page'', 4), (''session'', 6)], PInt 0,
      PDict False [(''session'', 6)]] 0)\<rparr>"

section \<open>Properties\<close>

lemmas sm_defs = no_file_def save_def load_def change_page_def empty_data_def save_step_def
  dict_keys_def entries_update_def priv_save_def clear_cache_def del_variable_def del_namespace_def
  bind_err_def read_current_page_def subscript_global_def is_logged_in_def session_has_def
  get_session_def

subsection \<open>Dictionary entries\<close>

lemma map_of_entries_update:
  "map_of (entries_update other es) k =
     (case map_of (rev other) k of Some a \<Rightarrow> Some a | None \<Rightarrow> map_of es k)"
  unfolding entries_update_def
proof (induction other arbitrary: es)
  case Nil
  then show ?case by simp
next
  case (Cons kv other)
  show ?case
    by (auto simp: Cons.IH update_conv' map_add_def split: option.split)
qed

lemma map_of_rev_distinct: "distinct (map fst xs) \<Longrightarrow> map_of (rev xs) = map_of xs"
  by (rule map_of_inject_set[THEN iffD2]) (simp_all add: distinct_rev rev_map[symmetric])

lemma keys_entries_update:
  "fst ` set (entries_update other es) = fst ` set es \<union> fst ` set other"
  unfolding entries_update_def
  by (induction other arbitrary: es) (auto simp: dom_update)

lemma distinct_entries_update:
  "distinct (map fst es) \<Longrightarrow> distinct (map fst (entries_update other es))"
  unfolding entries_update_def
  by (induction other arbitrary: es) (auto simp: distinct_update)

lemma set_update_subset: "set (AList.update k v al) \<subseteq> insert (k, v) (set al)"
  by (induction al) auto

lemma set_entries_update: "set (entries_update other es) \<subseteq> set es \<union> set other"
  unfolding entries_update_def
proof (induction other arbitrary: es)
  case Nil
  then show ?case by simp
next
  case (Cons kv other)
  have "set (fold (\<lambda>kv. AList.update (fst kv) (snd kv)) other (AList.update (fst kv) (snd kv) es))
          \<subseteq> set (AList.update (fst kv) (snd kv) es) \<union> set other"
    by (rule Cons.IH)
  also have "\<dots> \<subseteq> insert kv (set es) \<union> set other"
    using set_update_subset[of "fst kv" "snd kv" es] by auto
  finally show ?case by auto
qed

lemma set_delete_subset: "set (AList.delete k al) \<subseteq> set al"
  by (induction al) auto

lemma entries_update_same:
  "\<forall>kv\<in>set other. map_of es (fst kv) = Some (snd kv) \<Longrightarrow> entries_update other es = es"
  unfolding entries_update_def
  by (induction other) (auto simp: update_triv)

lemma entries_update_idem:
  assumes "distinct (map fst other)"
  shows "entries_update other (entries_update other es) = entries_update other es"
proof (rule entries_update_same, rule ballI)
  fix kv assume kv: "kv \<in> set other"
  have "map_of other (fst kv) = Some (snd kv)"
    using assms kv by (cases kv) simp
  then show "map_of (entries_update other es) (fst kv) = Some (snd kv)"
    by (simp add: map_of_entries_update map_of_rev_distinct[OF assms])
qed

subsection \<open>Saving nothing\<close>

text \<open>
  C8. When \<^verbatim>\<open>variables\<close> is \<^verbatim>\<open>None\<close> or the empty dictionary, \<^verbatim>\<open>save\<close> returns at once for
  every \<^verbatim>\<open>namespaces\<close> argument: the state manager and its file are as before, and the file is
  not read, so this holds also where reading it would raise.
\<close>

theorem save_falsy_variables:
  "save None namespaces s = Inr s \<and> save (Some []) namespaces s = Inr s"
  by (simp add: save_def)

subsection \<open>Read failures\<close>

text \<open>
  C4, as stated: whenever the cache file fails to unpickle, \<^verbatim>\<open>load\<close> returns an empty mapping
  and does not raise. It fails for a file on which unpickling raises
  \<^verbatim>\<open>UnpicklingError\<close>: the exception leaves \<^verbatim>\<open>load\<close>.
\<close>

theorem load_unpickling_error_counterexample:
  "load \<lparr>cache_filename = ''data.pkl'', cache_file = Some (Raises UnpicklingError)\<rparr>
     = Inl UnpicklingError"
  by (simp add: load_def)

text \<open>
  C4, amended: when unpickling the cache file raises \<^verbatim>\<open>EOFError\<close>, \<^verbatim>\<open>load\<close> returns a new empty
  mapping; every other exception of unpickling leaves \<^verbatim>\<open>load\<close> as it is.
\<close>

theorem load_read_failure:
  "load (s\<lparr>cache_file := Some (Raises e)\<rparr>) = (if e = EOFError then Inr empty_data else Inl e)"
  by (simp add: load_def empty_data_def)

theorem load_read_failure_witness:
  "load (no_file\<lparr>cache_file := Some (Raises EOFError)\<rparr>) = Inr ([PDict True []], 0) \<and>
   load (no_file\<lparr>cache_file := Some (Raises ValueError)\<rparr>) = Inl ValueError"
  using load_read_failure[where s = no_file and e = EOFError]
    load_read_failure[where s = no_file and e = ValueError]
  by (simp add: empty_data_def)

subsection \<open>What load returns\<close>

text \<open>
  C5, as stated: \<^verbatim>\<open>load\<close> returns exactly the persisted mapping, with no top-level entry
  beyond the stored namespaces. It fails on the file that one \<^verbatim>\<open>change_page(0)\<close> writes, whose
  only top-level key is \<^verbatim>\<open>"global"\<close>: the mapping returned has the key \<^verbatim>\<open>"current_page"\<close> as well.
\<close>

theorem load_adds_global_entries_counterexample:
  "load \<lparr>cache_filename = ''data.pkl'', cache_file = Some (Unpickles
       [PDict True [(''global'', 2)], PInt 0, PDict False [(''current_page'', 1)]] 0)\<rparr>
   = Inr ([PDict True [(''global'', 2), (''current_page'', 1)], PInt 0,
           PDict False [(''current_page'', 1)]], 0)"
  by (simp add: sm_defs)

text \<open>
  C5, amended: every call of \<^verbatim>\<open>load\<close> reads the whole cache file. When the persisted mapping
  has no \<^verbatim>\<open>"global"\<close> entry, the result is exactly the persisted mapping. When its \<^verbatim>\<open>"global"\<close>
  entry is a dictionary, the result is the persisted mapping with every entry of that
  dictionary stored at the top level too: its keys are the stored top-level keys and the keys
  of the global namespace, a key of the global namespace is bound to the value it has there,
  and every other key to its stored value.
\<close>

theorem load_returns_persisted_with_global:
  assumes "cache_file s = Some (Unpickles h r)" and "h ! r = PDict dd es"
  shows "(map_of es ''global'' = None \<longrightarrow> load s = Inr (h, r)) \<and>
         (\<forall>g dg ges. map_of es ''global'' = Some g \<and> h ! g = PDict dg ges \<and> distinct (map fst ges) \<longrightarrow>
            (\<exists>es'. load s = Inr (h[r := PDict dd es'], r) \<and>
               fst ` set es' = fst ` set es \<union> fst ` set ges \<and>
               (\<forall>k. map_of es' k = (case map_of ges k of Some a \<Rightarrow> Some a | None \<Rightarrow> map_of es k))))"
proof (intro conjI impI allI)
  assume "map_of es ''global'' = None"
  with assms show "load s = Inr (h, r)" by (simp add: load_def)
next
  fix g dg ges
  assume g: "map_of es ''global'' = Some g \<and> h ! g = PDict dg ges \<and> distinct (map fst ges)"
  with assms have "load s = Inr (h[r := PDict dd (entries_update ges es)], r)"
    by (simp add: load_def)
  moreover have "fst ` set (entries_update ges es) = fst ` set es \<union> fst ` set ges"
    by (rule keys_entries_update)
  moreover have "\<forall>k. map_of (entries_update ges es) k
      = (case map_of ges k of Some a \<Rightarrow> Some a | None \<Rightarrow> map_of es k)"
    using g by (simp add: map_of_entries_update map_of_rev_distinct)
  ultimately show "\<exists>es'. load s = Inr (h[r := PDict dd es'], r) \<and>
               fst ` set es' = fst ` set es \<union> fst ` set ges \<and>
               (\<forall>k. map_of es' k = (case map_of ges k of Some a \<Rightarrow> Some a | None \<Rightarrow> map_of es k))"
    by blast
qed

theorem load_returns_persisted_with_global_witness:
  "\<exists>es'. load \<lparr>cache_filename = ''data.pkl'', cache_file = Some (Unpickles
       [PDict True [(''global'', 2)], PInt 0, PDict False [(''current_page'', 1)]] 0)\<rparr>
       = Inr ([PDict True es', PInt 0, PDict False [(''current_page'', 1)]], 0) \<and>
     fst ` set es' = {''global'', ''current_page''} \<and>
     map_of es' ''current_page'' = Some 1 \<and> map_of es' ''global'' = Some 2"
proof -
  let ?h = "[PDict True [(''global'', 2)], PInt 0, PDict False [(''current_page'', 1)]]"
  let ?s = "\<lparr>cache_filename = ''data.pkl'', cache_file = Some (Unpickles ?h 0)\<rparr>"
  have 1: "cache_file ?s = Some (Unpickles ?h 0)" by simp
  have 2: "?h ! 0 = PDict True [(''global'', 2)]" by simp
  have 3: "map_of [(''global'', 2::nat)] ''global'' = Some 2 \<and>
           ?h ! 2 = PDict False [(''current_page'', 1)] \<and> distinct (map fst [(''current_page'', 1::nat)])"
    by simp
  from load_returns_persisted_with_global[OF 1 2, THEN conjunct2, rule_format, OF 3]
  obtain es' where "load ?s = Inr (?h[0 := PDict True es'], 0)"
    and "fst ` set es' = fst ` set [(''global'', 2::nat)] \<union> fst ` set [(''current_page'', 1::nat)]"
    and "\<forall>k. map_of es' k = (case map_of [(''current_page'', 1::nat)] k of Some a \<Rightarrow> Some a
             | None \<Rightarrow> map_of [(''global'', 2::nat)] k)"
    by blast
  then show ?thesis by (intro exI[of _ es']) auto
qed

subsection \<open>Registering pages\<close>


lemma apps_add_apps_unflagged:
  "apps (add_apps (map (\<lambda>p. (fst p, snd p, False)) ps) mp)
     = apps mp @ map (\<lambda>p. App (fst p) (snd p)) ps"
  by (induction ps arbitrary: mp) (simp_all add: add_app_def)

lemma state_manager_add_apps: "state_manager (add_apps cs mp) = state_manager mp"
  by (induction cs arbitrary: mp) (simp_all add: add_app_def)

lemma current_app_in_range:
  assumes "read_current_page str_int (state_manager mp) = Inr i" and "0 \<le> i"
    and "apps mp \<noteq> []"
  shows "current_app str_int mp
     = Inr (apps mp ! (if i < int (length (apps mp)) then nat i else 0))"
  using assms by (auto simp: current_app_def bind_err_def py_index_def)

lemma read_current_page_no_file: "read_current_page str_int no_file = Inr 0"
  by (simp add: sm_defs)

text \<open>
  C7. Calls of \<^verbatim>\<open>add_app\<close> without the \<^verbatim>\<open>initial_page\<close> flag append to the page list, in the
  order of the calls and with the name and the function given. On a router whose list was
  empty, the page registered as number \<open>n + 1\<close> is at index \<open>n\<close>, and when the stored current
  page is \<open>n\<close>, the page the router chooses is that one: the current page is an index into the
  list.
\<close>


theorem add_app_appends_in_order:
  "apps (add_apps (map (\<lambda>p. (fst p, snd p, False)) ps) mp)
     = apps mp @ map (\<lambda>p. App (fst p) (snd p)) ps \<and>
   (\<forall>n < length ps. apps mp = [] \<longrightarrow>
      apps (add_apps (map (\<lambda>p. (fst p, snd p, False)) ps) mp) ! n = App (fst (ps ! n)) (snd (ps ! n)) \<and>
      (read_current_page str_int (state_manager mp) = Inr (int n) \<longrightarrow>
         current_app str_int (add_apps (map (\<lambda>p. (fst p, snd p, False)) ps) mp)
           = Inr (App (fst (ps ! n)) (snd (ps ! n)))))"
proof (intro conjI allI impI)
  show "apps (add_apps (map (\<lambda>p. (fst p, snd p, False)) ps) mp)
     = apps mp @ map (\<lambda>p. App (fst p) (snd p)) ps"
    by (rule apps_add_apps_unflagged)
next
  fix n assume n: "n < length ps" and e: "apps mp = []"
  then show "apps (add_apps (map (\<lambda>p. (fst p, snd p, False)) ps) mp) ! n = App (fst (ps ! n)) (snd (ps ! n))"
    by (simp add: apps_add_apps_unflagged)
next
  fix n assume n: "n < length ps" and e: "apps mp = []"
    and r: "read_current_page str_int (state_manager mp) = Inr (int n)"
  let ?mp = "add_apps (map (\<lambda>p. (fst p, snd p, False)) ps) mp"
  have a: "apps ?mp = map (\<lambda>p. App (fst p) (snd p)) ps"
    using e by (simp add: apps_add_apps_unflagged)
  have "current_app str_int ?mp = Inr (apps ?mp ! (if int n < int (length (apps ?mp)) then nat (int n) else 0))"
    using r n a by (intro current_app_in_range) (auto simp: state_manager_add_apps)
  then show "current_app str_int ?mp = Inr (App (fst (ps ! n)) (snd (ps ! n)))"
    using n a by simp
qed

theorem add_app_appends_in_order_witness:
  "apps (add_apps [(''home'', 10::nat, False), (''about'', 20, False)] new_router)
     = [App ''home'' 10, App ''about'' 20] \<and>
   current_app (\<lambda>s. Inl ValueError) (add_apps [(''home'', 10::nat, False), (''about'', 20, False)] new_router)
     = Inr (App ''home'' 10)"
proof -
  let ?ps = "[(''home'', 10::nat), (''about'', 20)]"
  have r: "read_current_page (\<lambda>s. Inl ValueError) (state_manager (new_router :: nat MultiPage)) = Inr (int 0)"
    by (simp add: new_router_def read_current_page_no_file)
  have e: "apps (new_router :: nat MultiPage) = []" by (simp add: new_router_def)
  have n: "0 < length ?ps" by simp
  from add_app_appends_in_order[of ?ps new_router "\<lambda>s. Inl ValueError"] e
  have a: "apps (add_apps (map (\<lambda>p. (fst p, snd p, False)) ?ps) new_router)
     = map (\<lambda>p. App (fst p) (snd p)) ?ps" by simp
  from add_app_appends_in_order[of ?ps new_router "\<lambda>s. Inl ValueError", THEN conjunct2, rule_format, OF n e]
  have "current_app (\<lambda>s. Inl ValueError) (add_apps (map (\<lambda>p. (fst p, snd p, False)) ?ps) new_router)
           = Inr (App (fst (?ps ! 0)) (snd (?ps ! 0)))"
    using r by blast
  with a show ?thesis by simp
qed

lemma add_apps_initial_set:
  "initial_page mp \<noteq> None \<Longrightarrow>
     initial_page (add_apps cs mp) = initial_page mp \<and>
     apps (add_apps cs mp) = apps mp @ map (\<lambda>c. App (fst c) (fst (snd c))) cs"
  by (induction cs arbitrary: mp) (auto simp: add_app_def)

text \<open>
  C9. On a router without an initial page, the first \<^verbatim>\<open>add_app\<close> call with
  \<^verbatim>\<open>initial_page=True\<close> sets the initial page (under the name \<^verbatim>\<open>__INITIALPAGE__\<close>) and is not
  appended to the page list; every other call, with or without the flag, is appended in order
  under its own name. Without a flagged call there is no initial page.
\<close>


theorem first_flagged_add_app_sets_initial_page:
  "initial_page mp = None \<Longrightarrow>
     initial_page (add_apps cs mp)
       = map_option (\<lambda>c. App ''__INITIALPAGE__'' (fst (snd c))) (find (\<lambda>c. snd (snd c)) cs) \<and>
     apps (add_apps cs mp)
       = apps mp @ map (\<lambda>c. App (fst c) (fst (snd c)))
           (takeWhile (\<lambda>c. \<not> snd (snd c)) cs @ tl (dropWhile (\<lambda>c. \<not> snd (snd c)) cs))"
proof (induction cs arbitrary: mp)
  case Nil
  then show ?case by simp
next
  case (Cons c cs)
  show ?case
  proof (cases "snd (snd c)")
    case True
    let ?mp = "add_app (fst c) (fst (snd c)) True mp"
    have "initial_page ?mp \<noteq> None" and "apps ?mp = apps mp"
      and "initial_page ?mp = Some (App ''__INITIALPAGE__'' (fst (snd c)))"
      using Cons.prems by (simp_all add: add_app_def)
    then show ?thesis
      using add_apps_initial_set[of ?mp cs] True by simp
  next
    case False
    let ?mp = "add_app (fst c) (fst (snd c)) False mp"
    have "initial_page ?mp = None" and "apps ?mp = apps mp @ [App (fst c) (fst (snd c))]"
      using Cons.prems by (simp_all add: add_app_def)
    then show ?thesis
      using Cons.IH[of ?mp] False by simp
  qed
qed

theorem first_flagged_add_app_sets_initial_page_witness:
  "initial_page (new_router :: nat MultiPage) = None \<and>
   initial_page (add_apps [(''home'', 10::nat, False), (''start'', 20, True), (''again'', 30, True),
       (''about'', 40, False)] new_router) = Some (App ''__INITIALPAGE__'' 20) \<and>
   apps (add_apps [(''home'', 10::nat, False), (''start'', 20, True), (''again'', 30, True),
       (''about'', 40, False)] new_router) = [App ''home'' 10, App ''again'' 30, App ''about'' 40]"
proof -
  have i: "initial_page (new_router :: nat MultiPage) = None" by (simp add: new_router_def)
  have e: "apps (new_router :: nat MultiPage) = []" by (simp add: new_router_def)
  show ?thesis
    using first_flagged_add_app_sets_initial_page[OF i, of "[(''home'', 10::nat, False),
      (''start'', 20, True), (''again'', 30, True), (''about'', 40, False)]"] i e
    by simp
qed

subsection \<open>Choosing the page\<close>

text \<open>
  C2, as stated: for every stored index \<open>i\<close>, the page called is the one at position \<open>i\<close> of
  the page list. It fails for two pages and the stored index 5: the list has no position 5
  (\<^verbatim>\<open>apps[5]\<close> raises \<^verbatim>\<open>IndexError\<close>), and the router chooses the first page.
\<close>


theorem dispatch_past_end_counterexample:
  "bind_err (mp_change_page 5 two_pages) (\<lambda>mp. read_current_page (\<lambda>s. Inl ValueError) (state_manager mp)) = Inr 5 \<and>
   bind_err (mp_change_page 5 two_pages) (\<lambda>mp. py_index (apps mp) 5) = Inl IndexError \<and>
   bind_err (mp_change_page 5 two_pages) (current_app (\<lambda>s. Inl ValueError)) = Inr (App ''home'' 10)"
  by (simp add: two_pages_def new_router_def add_app_def mp_change_page_def current_app_def
      py_index_def sm_defs)

text \<open>
  C2, amended: in a run with the user logged in, before and after the navigation bar is
  rendered, and a page list that is not empty, the router reads the stored current-page index
  \<open>i\<close> from the state manager; for \<open>0 \<le> i\<close> it calls the page at position \<open>i\<close> when \<open>i\<close> is less
  than the number of pages and the page at position 0 otherwise, after the header and
  before the footer.
\<close>


theorem run_dispatches_stored_index:
  assumes "is_logged_in (state_manager mp) = Inr True"
    and "(case header mp of None \<Rightarrow> Inr ([], mp) | Some a \<Rightarrow> invoke call (Some a) ([], mp)) = Inr t1"
    and "render_navbar call str_int u (snd t1) = Inr mp2"
    and "is_logged_in (state_manager mp2) = Inr True"
    and "read_current_page str_int (state_manager mp2) = Inr i"
    and "0 \<le> i" and "apps mp2 \<noteq> []"
  shows "current_app str_int mp2 = Inr (apps mp2 ! (if i < int (length (apps mp2)) then nat i else 0)) \<and>
         private_run call str_int u mp
           = bind_err (invoke call (Some (apps mp2 ! (if i < int (length (apps mp2)) then nat i else 0)))
                         (fst t1, mp2))
               (\<lambda>t3. case footer (snd t3) of None \<Rightarrow> Inr t3 | Some a \<Rightarrow> invoke call (Some a) t3)"
proof -
  have c: "current_app str_int mp2 = Inr (apps mp2 ! (if i < int (length (apps mp2)) then nat i else 0))"
    using assms(5-7) by (rule current_app_in_range)
  have "private_run call str_int u mp
           = bind_err (invoke call (Some (apps mp2 ! (if i < int (length (apps mp2)) then nat i else 0)))
                         (fst t1, mp2))
               (\<lambda>t3. case footer (snd t3) of None \<Rightarrow> Inr t3 | Some a \<Rightarrow> invoke call (Some a) t3)"
    unfolding private_run_def using assms(1-4) c by (simp add: bind_err_def)
  with c show ?thesis by simp
qed

lemma logged_in_router_reached:
  "bind_err (login ''u'' ''t'' two_pages) (mp_change_page 1) = Inr logged_in_router"
  by (simp add: logged_in_router_def two_pages_def new_router_def add_app_def login_def
      mp_change_page_def sm_defs)

theorem run_dispatches_stored_index_witness:
  "private_run (\<lambda>f m. Inr m) (\<lambda>s. Inl ValueError) no_input logged_in_router
     = Inr ([App ''about'' 20], logged_in_router\<lparr>navbar_style := ''VerticalButton''\<rparr>)"
proof -
  let ?call = "\<lambda>(f::nat) (m::nat MultiPage). (Inr m :: error + nat MultiPage)"
  let ?si = "\<lambda>s::string. (Inl ValueError :: error + int)"
  let ?mp2 = "logged_in_router\<lparr>navbar_style := ''VerticalButton''\<rparr>"
  have 1: "is_logged_in (state_manager logged_in_router) = Inr True"
    by (simp add: logged_in_router_def sm_defs)
  have 2: "(case header logged_in_router of None \<Rightarrow> Inr ([], logged_in_router)
            | Some a \<Rightarrow> invoke ?call (Some a) ([], logged_in_router)) = Inr ([], logged_in_router)"
    by (simp add: logged_in_router_def)
  have 3: "render_navbar ?call ?si no_input (snd ([] :: nat App list, logged_in_router)) = Inr ?mp2"
    by (simp add: logged_in_router_def render_navbar_def render_next_previous_def no_input_def
        upt_rec sm_defs)
  have 4: "is_logged_in (state_manager ?mp2) = Inr True"
    by (simp add: logged_in_router_def sm_defs)
  have 5: "read_current_page ?si (state_manager ?mp2) = Inr 1"
    by (simp add: logged_in_router_def sm_defs)
  have 6: "apps ?mp2 \<noteq> []" by (simp add: logged_in_router_def)
  have 7: "apps ?mp2 ! (if (1::int) < int (length (apps ?mp2)) then nat 1 else 0) = App ''about'' 20"
    by (simp add: logged_in_router_def)
  show ?thesis
    using run_dispatches_stored_index[OF 1 2 3 4 5 _ 6] 7
    by (simp add: invoke_def bind_err_def logged_in_router_def)
qed

subsection \<open>Missing keys\<close>

text \<open>
  C6. After one \<^verbatim>\<open>change_page(0)\<close> on a state manager without a cache file, the global
  namespace has the variable \<^verbatim>\<open>current_page\<close>, and \<^verbatim>\<open>load\<close> stores it at the top level of the
  data too. \<^verbatim>\<open>clear_cache(variables={"missing": None})\<close> then takes that top-level entry for a
  namespace and evaluates \<^verbatim>\<open>del data["current_page"]["missing"]\<close> on the integer 0: the
  \<^verbatim>\<open>TypeError\<close> is not the \<^verbatim>\<open>KeyError\<close> the loop catches, so the call raises where the claim
  says the absent variable is skipped.
\<close>

theorem clear_cache_missing_variable_raises:
  "bind_err (change_page 0 no_file) (clear_cache (Some [(''missing'', VNone)]) None False)
     = Inl TypeError"
  by (simp add: sm_defs)

subsection \<open>Building objects\<close>


lemma fresh_ok_mono: "fresh_ok lo hi obj \<Longrightarrow> lo' \<le> lo \<Longrightarrow> hi \<le> hi' \<Longrightarrow> fresh_ok lo' hi' obj"
  by (cases obj) auto

lemma fresh_ok_obj_ok: "fresh_ok lo hi obj \<Longrightarrow> obj_ok hi obj"
  by (cases obj) auto

lemma obj_ok_mono: "obj_ok n obj \<Longrightarrow> n \<le> m \<Longrightarrow> obj_ok m obj"
  by (cases obj) auto

lemma alloc_grows:
  "alloc v h = (a, h') \<Longrightarrow>
     (\<exists>xs. h' = h @ xs) \<and> length h \<le> a \<and> a < length h' \<and>
     (wf_val v \<longrightarrow> (\<forall>i. length h \<le> i \<and> i < length h' \<longrightarrow> fresh_ok (length h) (length h') (h' ! i)))"
  "alloc_entries kvs h = (es, h') \<Longrightarrow>
     (\<exists>xs. h' = h @ xs) \<and> map fst es = map fst kvs \<and>
     (\<forall>e\<in>set es. length h \<le> snd e \<and> snd e < length h') \<and>
     (wf_vals kvs \<longrightarrow> (\<forall>i. length h \<le> i \<and> i < length h' \<longrightarrow> fresh_ok (length h) (length h') (h' ! i)))"
proof (induction v h and kvs h arbitrary: a h' and es h' rule: alloc_alloc_entries.induct)
  case (1 h)
  then show ?case by (auto simp: nth_append)
next
  case (2 i h)
  then show ?case by (auto simp: nth_append)
next
  case (3 s h)
  then show ?case by (auto simp: nth_append)
next
  case (4 dd kvs h)
  obtain es h1 where e: "alloc_entries kvs h = (es, h1)" by (cases "alloc_entries kvs h")
  with "4.prems" have a: "a = length h1" and h': "h' = h1 @ [PDict dd es]" by auto
  note IH = "4.IH"[OF e]
  from IH obtain xs where xs: "h1 = h @ xs" by blast
  have "\<exists>ys. h' = h @ ys" using xs h' by simp
  moreover have "length h \<le> a" "a < length h'" using xs a h' by auto
  moreover have "wf_val (VDict dd kvs) \<longrightarrow>
      (\<forall>i. length h \<le> i \<and> i < length h' \<longrightarrow> fresh_ok (length h) (length h') (h' ! i))"
  proof (intro impI allI)
    fix i assume wf: "wf_val (VDict dd kvs)" and i: "length h \<le> i \<and> i < length h'"
    show "fresh_ok (length h) (length h') (h' ! i)"
    proof (cases "i < length h1")
      case True
      then have "fresh_ok (length h) (length h1) (h1 ! i)" using IH wf i by auto
      then show ?thesis using True h' by (auto simp: nth_append intro: fresh_ok_mono)
    next
      case False
      then have "h' ! i = PDict dd es" using i h' by (auto simp: nth_append)
      moreover have "distinct (map fst es)" using IH wf by auto
      moreover have "\<forall>e\<in>set es. length h \<le> snd e \<and> snd e < length h'"
        using IH h' by auto
      ultimately show ?thesis by simp
    qed
  qed
  ultimately show ?case by blast
next
  case (5 h)
  then show ?case by auto
next
  case (6 kv kvs h)
  obtain a h1 where a: "alloc (snd kv) h = (a, h1)" by (cases "alloc (snd kv) h")
  obtain es2 h2 where e: "alloc_entries kvs h1 = (es2, h2)" by (cases "alloc_entries kvs h1")
  from "6.prems" a e have es: "es = (fst kv, a) # es2" and h': "h' = h2" by auto
  note IH1 = "6.IH"(1)[OF a]
  note IH2 = "6.IH"(2)[OF a[symmetric] e]
  from IH1 obtain xs where xs: "h1 = h @ xs" by blast
  from IH2 obtain ys where ys: "h2 = h1 @ ys" by blast
  have "\<exists>zs. h' = h @ zs" using xs ys h' by simp
  moreover have "map fst es = map fst (kv # kvs)" using IH2 es by simp
  moreover have "\<forall>e\<in>set es. length h \<le> snd e \<and> snd e < length h'"
    using IH1 IH2 es h' xs ys by auto
  moreover have "wf_vals (kv # kvs) \<longrightarrow>
      (\<forall>i. length h \<le> i \<and> i < length h' \<longrightarrow> fresh_ok (length h) (length h') (h' ! i))"
  proof (intro impI allI)
    fix i assume wf: "wf_vals (kv # kvs)" and i: "length h \<le> i \<and> i < length h'"
    show "fresh_ok (length h) (length h') (h' ! i)"
    proof (cases "i < length h1")
      case True
      then have "fresh_ok (length h) (length h1) (h1 ! i)" using IH1 wf i by auto
      moreover have "h' ! i = h1 ! i" using True ys h' by (simp add: nth_append)
      moreover have "length h1 \<le> length h'" using ys h' by simp
      ultimately show ?thesis by (auto intro: fresh_ok_mono)
    next
      case False
      then have "fresh_ok (length h1) (length h2) (h2 ! i)" using IH2 wf i h' by auto
      moreover have "length h \<le> length h1" using xs by simp
      ultimately show ?thesis using h' by (auto intro: fresh_ok_mono)
    qed
  qed
  ultimately show ?case by blast
qed

lemma wf_heap_nth: "wf_heap h \<Longrightarrow> a < length h \<Longrightarrow> obj_ok (length h) (h ! a)"
  by (simp add: wf_heap_def list_all_length)

lemma wf_heap_update:
  "wf_heap h \<Longrightarrow> obj_ok (length h) obj \<Longrightarrow> wf_heap (h[a := obj])"
  unfolding wf_heap_def list_all_length
proof (intro allI impI)
  fix n assume a: "\<forall>n<length h. obj_ok (length h) (h ! n)" "obj_ok (length h) obj"
    and n: "n < length (h[a := obj])"
  then show "obj_ok (length (h[a := obj])) (h[a := obj] ! n)"
    by (cases "n = a") simp_all
qed

lemma wf_heap_snoc:
  "wf_heap h \<Longrightarrow> obj_ok (Suc (length h)) obj \<Longrightarrow> wf_heap (h @ [obj])"
  by (auto simp: wf_heap_def list_all_length nth_append intro: obj_ok_mono)

lemma wf_heap_alloc:
  assumes "wf_heap h" and "wf_val v" and "alloc v h = (a, h')"
  shows "wf_heap h'"
proof -
  from alloc_grows(1)[OF assms(3)] assms(2) obtain xs where xs: "h' = h @ xs"
    and fr: "\<forall>i. length h \<le> i \<and> i < length h' \<longrightarrow> fresh_ok (length h) (length h') (h' ! i)"
    by blast
  show ?thesis
    unfolding wf_heap_def list_all_length
  proof (intro allI impI)
    fix i assume i: "i < length h'"
    show "obj_ok (length h') (h' ! i)"
    proof (cases "i < length h")
      case True
      then have "obj_ok (length h) (h ! i)" using assms(1) by (rule wf_heap_nth[rotated])
      then show ?thesis using True xs by (auto simp: nth_append intro: obj_ok_mono)
    next
      case False
      then have "fresh_ok (length h) (length h') (h' ! i)" using fr i by simp
      then show ?thesis by (rule fresh_ok_obj_ok)
    qed
  qed
qed

subsection \<open>The persisted data stays a mapping\<close>


lemma wf_data_dest:
  assumes "wf_data (h, r)"
  obtains dd es where "h ! r = PDict dd es" "r < length h" "wf_heap h"
    "distinct (map fst es)" "\<forall>e\<in>set es. snd e < length h"
proof -
  from assms have r: "r < length h" and w: "wf_heap h" and d: "is_dict (h ! r)"
    by (simp_all add: wf_data_def)
  from d obtain dd es where e: "h ! r = PDict dd es" by (cases "h ! r") auto
  from wf_heap_nth[OF w r] e have "distinct (map fst es)" "\<forall>e\<in>set es. snd e < length h"
    by simp_all
  with e r w show thesis by (rule that)
qed

lemmas obj_ok_dict = obj_ok.simps(1)

lemma update_arg_ok:
  assumes "wf_heap h" and "a < length h" and "update_arg (h ! a) = Inr ves"
  shows "\<forall>e\<in>set ves. snd e < length h"
proof (cases "h ! a")
  case (PDict dd es)
  with assms(3) have "ves = es" by simp
  with wf_heap_nth[OF assms(1,2)] PDict show ?thesis by (simp add: obj_ok_dict)
next
  case (PStr s)
  with assms(3) show ?thesis by (auto split: if_splits)
qed (use assms(3) in auto)

lemma entries_update_ok:
  assumes "distinct (map fst es)" and "\<forall>e\<in>set es. snd e < n" and "\<forall>e\<in>set other. snd e < n"
  shows "obj_ok n (PDict dd (entries_update other es))"
  using assms set_entries_update[of other es]
  by (auto simp: obj_ok_dict distinct_entries_update)

lemma wf_data_empty: "wf_data empty_data"
  by (simp add: wf_data_def wf_heap_def empty_data_def)

lemma map_of_in_range:
  "\<forall>e\<in>set es. snd e < n \<Longrightarrow> map_of es k = Some a \<Longrightarrow> a < n"
  using map_of_SomeD[of es k a] by fastforce

lemma load_wf:
  assumes "persisted_ok s" and "load s = Inr d"
  shows "wf_data d"
proof (cases "cache_file s")
  case None
  with assms(2) show ?thesis by (simp add: load_def wf_data_empty)
next
  case (Some f)
  with assms(1) obtain h r where f: "f = Unpickles h r" and w: "wf_data (h, r)"
    by (cases f) (auto simp: persisted_ok_def)
  from w obtain dd es where root: "h ! r = PDict dd es" and r: "r < length h" and wh: "wf_heap h"
    and dist: "distinct (map fst es)" and rng: "\<forall>e\<in>set es. snd e < length h"
    by (rule wf_data_dest)
  show ?thesis
  proof (cases "map_of es ''global''")
    case None
    with assms(2) Some f root have "d = (h, r)" by (simp add: load_def)
    with w show ?thesis by simp
  next
    case (Some g)
    then have g: "g < length h" using rng by (rule map_of_in_range[rotated])
    from assms(2) \<open>cache_file s = Some f\<close> f root Some
    obtain ges where u: "update_arg (h ! g) = Inr ges"
      and d: "d = (h[r := PDict dd (entries_update ges es)], r)"
      by (auto simp: load_def split: sum.splits)
    have "obj_ok (length h) (PDict dd (entries_update ges es))"
      using dist rng update_arg_ok[OF wh g u] by (rule entries_update_ok)
    then have "wf_heap (h[r := PDict dd (entries_update ges es)])"
      using wh by (intro wf_heap_update)
    then show ?thesis using d r by (simp add: wf_data_def)
  qed
qed

lemma save_step_wf:
  assumes "wf_data (h, r)" and "va < length h" and "save_step va (h, r) ns = Inr d"
  shows "wf_data d \<and> length (fst d) = length h \<and> snd d = r"
proof -
  from assms(1) obtain dd es where root: "h ! r = PDict dd es" and r: "r < length h"
    and wh: "wf_heap h" and dist: "distinct (map fst es)"
    and rng: "\<forall>e\<in>set es. snd e < length h"
    by (rule wf_data_dest)
  show ?thesis
  proof (cases "map_of es ns")
    case None
    with assms(3) root have d: "d = (h[r := PDict dd (AList.update ns va es)], r)"
      by (simp add: save_step_def)
    have "obj_ok (length h) (PDict dd (AList.update ns va es))"
      using dist rng assms(2) set_update_subset[of ns va es]
      by (auto simp: obj_ok_dict distinct_update)
    then have "wf_heap (h[r := PDict dd (AList.update ns va es)])"
      using wh by (intro wf_heap_update)
    then show ?thesis using d r by (simp add: wf_data_def)
  next
    case (Some a)
    then have a: "a < length h" using rng by (rule map_of_in_range[rotated])
    from assms(3) root Some obtain dd' es' ves where obj: "h ! a = PDict dd' es'"
      and u: "update_arg (h ! va) = Inr ves"
      and d: "d = (h[a := PDict dd' (entries_update ves es')], r)"
      by (auto simp: save_step_def split: pyobj.splits sum.splits)
    from wf_heap_nth[OF wh a] obj have "distinct (map fst es')" "\<forall>e\<in>set es'. snd e < length h"
      by (simp_all add: obj_ok_dict)
    then have "obj_ok (length h) (PDict dd' (entries_update ves es'))"
      using update_arg_ok[OF wh assms(2) u] by (rule entries_update_ok)
    then have "wf_heap (h[a := PDict dd' (entries_update ves es')])"
      using wh by (intro wf_heap_update)
    moreover have "is_dict (h[a := PDict dd' (entries_update ves es')] ! r)"
      using root r by (cases "a = r") simp_all
    ultimately show ?thesis using d r by (simp add: wf_data_def)
  qed
qed

lemma save_loop_wf:
  "wf_data (h, r) \<Longrightarrow> va < length h \<Longrightarrow> save_loop va (h, r) nss = Inr d \<Longrightarrow>
     wf_data d \<and> length (fst d) = length h \<and> snd d = r"
proof (induction nss arbitrary: h)
  case Nil
  then show ?case by auto
next
  case (Cons ns nss)
  from Cons.prems(3) obtain d1 where s: "save_step va (h, r) ns = Inr d1"
    and l: "save_loop va d1 nss = Inr d"
    by (auto split: sum.splits)
  obtain h1 r1 where d1: "d1 = (h1, r1)" by (cases d1)
  from save_step_wf[OF Cons.prems(1,2) s] d1
  have 1: "wf_data (h1, r1)" "length h1 = length h" "r1 = r" by auto
  then have 2: "wf_data (h1, r)" "va < length h1" using Cons.prems(2) by simp_all
  from l d1 1 have 3: "save_loop va (h1, r) nss = Inr d" by simp
  from Cons.IH[OF 2 3] 1 show ?case by simp
qed

lemma fold_err_invariant:
  assumes "\<And>x d d'. P d \<Longrightarrow> f x d = Inr d' \<Longrightarrow> P d'"
  shows "P d \<Longrightarrow> fold_err f xs d = Inr d' \<Longrightarrow> P d'"
proof (induction xs arbitrary: d)
  case Nil
  then show ?case by simp
next
  case (Cons x xs)
  then show ?case using assms by (auto split: sum.splits)
qed

lemma del_item_ok:
  "obj_ok n obj \<Longrightarrow> del_item obj k = Inr obj' \<Longrightarrow> obj_ok n obj' \<and> is_dict obj'"
proof (cases obj)
  case (PDict dd es)
  assume a: "obj_ok n obj" "del_item obj k = Inr obj'"
  with PDict have o: "obj' = PDict dd (AList.delete k es)" by (simp split: if_splits)
  have "set (AList.delete k es) \<subseteq> set es" by (rule set_delete_subset)
  with a(1) PDict have "\<forall>e\<in>set (AList.delete k es). snd e < n" by auto
  moreover have "distinct (map fst (AList.delete k es))" using a(1) PDict by (simp add: distinct_delete)
  ultimately show ?thesis using o by simp
qed simp_all

lemma del_namespace_wf:
  assumes "wf_data d" and "del_namespace ns d = Inr d'"
  shows "wf_data d'"
proof -
  obtain h r where d: "d = (h, r)" by (cases d)
  with assms(1) have r: "r < length h" and wh: "wf_heap h" by (simp_all add: wf_data_def)
  show ?thesis
  proof (cases "del_item (h ! r) ns")
    case (Inl e)
    with assms(2) d have "d' = d" by (simp add: del_namespace_def split: if_splits)
    with assms(1) show ?thesis by simp
  next
    case (Inr obj)
    with assms(2) d have d': "d' = (h[r := obj], r)" by (simp add: del_namespace_def)
    from del_item_ok[OF wf_heap_nth[OF wh r] Inr] have "obj_ok (length h) obj" "is_dict obj"
      by simp_all
    then show ?thesis using d' r wf_heap_update[OF wh] by (simp add: wf_data_def)
  qed
qed

lemma del_variable_wf:
  assumes "wf_data d" and "del_variable ns v d = Inr d'"
  shows "wf_data d'"
proof -
  obtain h r where d: "d = (h, r)" by (cases d)
  from assms(1)[unfolded d] obtain dd es where root: "h ! r = PDict dd es" and r: "r < length h"
    and wh: "wf_heap h" and dist: "distinct (map fst es)"
    and rng: "\<forall>e\<in>set es. snd e < length h"
    by (rule wf_data_dest)
  show ?thesis
  proof (cases "map_of es ns")
    case None
    show ?thesis
    proof (cases dd)
      case True
      with assms(2) d root None
      have d': "d' = ((h @ [PDict False []])[r := PDict dd (AList.update ns (length h) es)], r)"
        by (simp add: del_variable_def)
      have "wf_heap (h @ [PDict False []])" using wh by (intro wf_heap_snoc) simp_all
      moreover have "obj_ok (length (h @ [PDict False []])) (PDict dd (AList.update ns (length h) es))"
        using dist rng set_update_subset[of ns "length h" es]
        by (auto simp: obj_ok_dict distinct_update less_Suc_eq)
      ultimately have "wf_heap ((h @ [PDict False []])[r := PDict dd (AList.update ns (length h) es)])"
        by (rule wf_heap_update)
      then show ?thesis using d' r by (simp add: wf_data_def)
    next
      case False
      with assms(2) d root None have "d' = d" by (simp add: del_variable_def)
      with assms(1) show ?thesis by simp
    qed
  next
    case (Some a)
    then have a: "a < length h" using rng by (rule map_of_in_range[rotated])
    show ?thesis
    proof (cases "del_item (h ! a) v")
      case (Inl e)
      with assms(2) d root Some have "d' = d" by (simp add: del_variable_def split: if_splits)
      with assms(1) show ?thesis by simp
    next
      case (Inr obj)
      with assms(2) d root Some have d': "d' = (h[a := obj], r)" by (simp add: del_variable_def)
      from del_item_ok[OF wf_heap_nth[OF wh a] Inr] have o: "obj_ok (length h) obj" "is_dict obj"
        by simp_all
      have "is_dict (h[a := obj] ! r)" using root r o by (cases "a = r") simp_all
      then show ?thesis using d' r wf_heap_update[OF wh o(1)] by (simp add: wf_data_def)
    qed
  qed
qed

lemma persisted_ok_priv_save: "wf_data d \<Longrightarrow> persisted_ok (priv_save d s)"
  by (simp add: persisted_ok_def priv_save_def)

lemma save_elim:
  assumes "save (Some vs) namespaces s = Inr s'" and "vs \<noteq> []"
  obtains h r va h1 d where "load s = Inr (h, r)" and "alloc (VDict False vs) h = (va, h1)"
    and "save_loop va (h1, r) (dict_keys (case namespaces of None \<Rightarrow> [''global''] | Some nss \<Rightarrow> nss)) = Inr d"
    and "s' = priv_save d s"
proof -
  from assms(2) obtain kv kvs where kv: "vs = kv # kvs" by (cases vs) auto
  let ?nss = "dict_keys (case namespaces of None \<Rightarrow> [''global''] | Some nss \<Rightarrow> nss)"
  show thesis
  proof (cases "load s")
    case (Inl e)
    with assms(1) kv show ?thesis by (simp add: save_def)
  next
    case (Inr d0)
    obtain h r where d0: "d0 = (h, r)" by (cases d0)
    obtain va h1 where al: "alloc (VDict False vs) h = (va, h1)"
      by (cases "alloc (VDict False vs) h")
    show ?thesis
    proof (cases "save_loop va (h1, r) ?nss")
      case (Inl e)
      with assms(1) kv Inr d0 al show ?thesis by (simp add: save_def del: alloc.simps)
    next
      case (Inr d)
      with assms(1) kv \<open>load s = Inr d0\<close> d0 al have "s' = priv_save d s"
        by (simp add: save_def del: alloc.simps)
      with \<open>load s = Inr d0\<close> d0 al Inr show ?thesis by (intro that) simp_all
    qed
  qed
qed

lemma save_persisted_ok:
  assumes "persisted_ok s" and "case variables of None \<Rightarrow> True | Some vs \<Rightarrow> wf_val (VDict False vs)"
    and "save variables namespaces s = Inr s'"
  shows "persisted_ok s'"
proof (cases "variables = None \<or> variables = Some []")
  case True
  with assms(3) have "s' = s" by (auto simp: save_def)
  with assms(1) show ?thesis by simp
next
  case False
  then obtain vs where vs: "variables = Some vs" "vs \<noteq> []" by (cases variables) auto
  then obtain kv kvs where kv: "vs = kv # kvs" by (cases vs) auto
  obtain nss where nss: "nss = dict_keys (case namespaces of None \<Rightarrow> [''global''] | Some nss \<Rightarrow> nss)"
    by simp
  from save_elim[OF assms(3)[unfolded vs(1)] vs(2)] nss
  obtain h r va h1 d where l: "load s = Inr (h, r)"
    and al: "alloc (VDict False vs) h = (va, h1)"
    and lp: "save_loop va (h1, r) nss = Inr d" and s': "s' = priv_save d s"
    by blast
  from load_wf[OF assms(1) l] have w: "wf_data (h, r)" .
  from assms(2) vs have wv: "wf_val (VDict False vs)" by simp
  from w have wh: "wf_heap h" and r: "r < length h" and dr: "is_dict (h ! r)"
    by (simp_all add: wf_data_def)
  from alloc_grows(1)[OF al] obtain xs where xs: "h1 = h @ xs" and va: "va < length h1" by blast
  have "wf_data (h1, r)"
    using wf_heap_alloc[OF wh wv al] r dr xs by (simp add: wf_data_def nth_append)
  from save_loop_wf[OF this va lp] have "wf_data d" by simp
  then show ?thesis using s' by (simp add: persisted_ok_priv_save)
qed

lemma fold_del_namespace_wf:
  "wf_data d \<Longrightarrow> fold_err del_namespace ks d = Inr d' \<Longrightarrow> wf_data d'"
  by (rule fold_err_invariant[where P = wf_data and f = del_namespace]) (rule del_namespace_wf)

lemma fold_del_variable_wf:
  "wf_data d \<Longrightarrow> fold_err (del_variable ns) vs d = Inr d' \<Longrightarrow> wf_data d'"
  by (rule fold_err_invariant[where P = wf_data and f = "del_variable ns"]) (rule del_variable_wf)

lemma fold_del_variables_wf:
  "wf_data d \<Longrightarrow> fold_err (\<lambda>ns. fold_err (del_variable ns) vs) ks d = Inr d' \<Longrightarrow> wf_data d'"
  by (rule fold_err_invariant[where P = wf_data and f = "\<lambda>ns. fold_err (del_variable ns) vs"])
    (rule fold_del_variable_wf)



lemma clear_cache_unfold:
  "clear_cache variables namespaces all_variables s =
     (case load s of
        Inl e \<Rightarrow> Inl e
      | Inr d0 \<Rightarrow>
          (case clear_body variables namespaces all_variables d0 of
             Inl e \<Rightarrow> Inl e
           | Inr d \<Rightarrow>
               Inr (if all_variables \<and> cache_filename s \<noteq> []
                    then (priv_save d s)\<lparr>cache_file := None\<rparr>
                    else priv_save d s)))"
proof (cases "load s")
  case (Inl e)
  then show ?thesis by (simp add: clear_cache_def)
next
  case (Inr d0)
  obtain h r where "d0 = (h, r)" by (cases d0)
  with Inr show ?thesis by (simp add: clear_cache_def clear_body_def)
qed

lemma clear_body_wf:
  assumes "wf_data d0" and "clear_body variables namespaces all_variables d0 = Inr d"
  shows "wf_data d"
proof -
  consider (a) "all_variables"
    | (b) "\<not> all_variables" "truthy namespaces \<and> \<not> truthy variables"
    | (c) "\<not> all_variables" "\<not> (truthy namespaces \<and> \<not> truthy variables)" "truthy variables"
    | (d) "\<not> all_variables" "\<not> (truthy namespaces \<and> \<not> truthy variables)" "\<not> truthy variables"
    by blast
  then show ?thesis
  proof cases
    case a
    with assms(2) obtain ks where "fold_err del_namespace ks d0 = Inr d"
      by (simp add: clear_body_def split: sum.splits)
    with assms(1) show ?thesis by (rule fold_del_namespace_wf)
  next
    case b
    with assms(2) have "fold_err del_namespace (the namespaces) d0 = Inr d"
      by (simp add: clear_body_def)
    with assms(1) show ?thesis by (rule fold_del_namespace_wf)
  next
    case c
    with assms(2) obtain ks where
      "fold_err (\<lambda>ns. fold_err (del_variable ns) (map fst (the variables))) ks d0 = Inr d"
      by (simp add: clear_body_def split: sum.splits)
    with assms(1) show ?thesis by (rule fold_del_variables_wf)
  next
    case d
    with assms show ?thesis by (simp add: clear_body_def)
  qed
qed

lemma clear_cache_persisted_ok:
  assumes "persisted_ok s" and "clear_cache variables namespaces all_variables s = Inr s'"
  shows "persisted_ok s'"
proof (cases "load s")
  case (Inl e)
  with assms(2) show ?thesis by (simp add: clear_cache_unfold)
next
  case (Inr d0)
  from load_wf[OF assms(1) Inr] have w: "wf_data d0" .
  show ?thesis
  proof (cases "clear_body variables namespaces all_variables d0")
    case (Inl e)
    with assms(2) \<open>load s = Inr d0\<close> show ?thesis by (simp add: clear_cache_unfold)
  next
    case (Inr d)
    from clear_body_wf[OF w Inr] have "wf_data d" .
    then have "persisted_ok (priv_save d s)" by (rule persisted_ok_priv_save)
    moreover have "persisted_ok ((priv_save d s)\<lparr>cache_file := None\<rparr>)"
      by (simp add: persisted_ok_def)
    ultimately show ?thesis
      using assms(2) \<open>load s = Inr d0\<close> Inr by (auto simp: clear_cache_unfold)
  qed
qed

lemma apply_op_persisted_ok:
  assumes "persisted_ok s" and "op_ok x" and "apply_op x s = Inr s'"
  shows "persisted_ok s'"
proof (cases x)
  case (Save variables namespaces)
  with assms(2) have v: "case variables of None \<Rightarrow> True | Some vs \<Rightarrow> wf_val (VDict False vs)"
    by simp
  from Save assms(3) have "save variables namespaces s = Inr s'" by simp
  with assms(1) v show ?thesis by (rule save_persisted_ok)
next
  case (ChangePage page)
  have v: "case Some [(''current_page'', VInt page)] of None \<Rightarrow> True
        | Some vs \<Rightarrow> wf_val (VDict False vs)"
    by simp
  from ChangePage assms(3)
  have "save (Some [(''current_page'', VInt page)]) (Some [''global'']) s = Inr s'"
    by (simp add: change_page_def)
  with assms(1) v show ?thesis by (rule save_persisted_ok)
next
  case (ClearCache variables namespaces all_variables)
  with assms(3) have "clear_cache variables namespaces all_variables s = Inr s'" by simp
  with assms(1) show ?thesis by (rule clear_cache_persisted_ok)
qed

text \<open>
  C3, as stated: after every sequence of \<^verbatim>\<open>save\<close>, \<^verbatim>\<open>change_page\<close> and \<^verbatim>\<open>clear_cache\<close> calls the
  cache file holds a mapping from namespaces to mappings and nothing else. It fails after
  \<^verbatim>\<open>change_page(0)\<close>, \<^verbatim>\<open>change_page(1)\<close> on a state manager without a cache file: the second call
  writes back what \<^verbatim>\<open>load\<close> returned, and the file then has the top-level entry
  \<^verbatim>\<open>"current_page"\<close> bound to the integer 0.
\<close>

theorem top_level_integer_counterexample:
  "namespaces_only no_file \<and> \<not> namespaces_only (run_ops [ChangePage 0, ChangePage 1] no_file)"
  by (simp add: namespaces_only_def sm_defs)

text \<open>
  C3, amended: after every sequence of \<^verbatim>\<open>save\<close>, \<^verbatim>\<open>change_page\<close> and \<^verbatim>\<open>clear_cache\<close> calls (with
  dictionaries as arguments that have each key once) that starts without a cache file or with
  a well-formed one, the cache file, if present, unpickles to a dictionary from strings to
  values: each key occurs once and every value is an object of the same pickle. A top-level
  value need not be a mapping.
\<close>


theorem persisted_data_stays_a_mapping:
  "persisted_ok s \<Longrightarrow> list_all op_ok ops \<Longrightarrow> persisted_ok (run_ops ops s)"
proof (induction ops arbitrary: s)
  case Nil
  then show ?case by simp
next
  case (Cons x xs)
  have "persisted_ok (case apply_op x s of Inl e \<Rightarrow> s | Inr s' \<Rightarrow> s')"
  proof (cases "apply_op x s")
    case (Inl e)
    with Cons.prems(1) show ?thesis by simp
  next
    case (Inr s')
    from Cons.prems(2) have "op_ok x" by simp
    with Cons.prems(1) have "persisted_ok s'" using Inr by (rule apply_op_persisted_ok)
    with Inr show ?thesis by simp
  qed
  then show ?case using Cons.prems(2) Cons.IH by simp
qed

theorem persisted_data_stays_a_mapping_witness:
  "persisted_ok no_file \<and> list_all op_ok [ChangePage 0, ChangePage 1] \<and>
   persisted_ok (run_ops [ChangePage 0, ChangePage 1] no_file)"
proof -
  have 1: "persisted_ok no_file" by (simp add: persisted_ok_def no_file_def)
  have 2: "list_all op_ok [ChangePage 0, ChangePage 1]" by simp
  from persisted_data_stays_a_mapping[OF 1 2] 1 2 show ?thesis by simp
qed

subsection \<open>Values in the store\<close>

lemma repr_append:
  "repr h a v \<Longrightarrow> repr (h @ xs) a v"
  "repr_entries h es kvs \<Longrightarrow> repr_entries (h @ xs) es kvs"
proof (induction h a v and h es kvs rule: repr_repr_entries.induct)
  case (4 h a dd kvs)
  then show ?case by (auto simp: nth_append split: pyobj.splits)
qed (auto simp: nth_append)

lemma alloc_repr:
  "alloc v h = (a, h') \<Longrightarrow> repr h' a v"
  "alloc_entries kvs h = (es, h') \<Longrightarrow> repr_entries h' es kvs"
proof (induction v h and kvs h arbitrary: a h' and es h' rule: alloc_alloc_entries.induct)
  case (4 dd kvs h)
  obtain es h1 where e: "alloc_entries kvs h = (es, h1)" by (cases "alloc_entries kvs h")
  with "4.prems" have a: "a = length h1" and h': "h' = h1 @ [PDict dd es]" by auto
  from "4.IH"[OF e] have "repr_entries h1 es kvs" .
  then have "repr_entries h' es kvs" unfolding h' by (rule repr_append)
  then show ?case using a h' by simp
next
  case (6 kv kvs h)
  obtain a h1 where a: "alloc (snd kv) h = (a, h1)" by (cases "alloc (snd kv) h")
  obtain es2 h2 where e: "alloc_entries kvs h1 = (es2, h2)" by (cases "alloc_entries kvs h1")
  from "6.prems" a e have es: "es = (fst kv, a) # es2" and h': "h' = h2" by auto
  from alloc_grows(2)[OF e] obtain ys where ys: "h2 = h1 @ ys" by blast
  from "6.IH"(1)[OF a] have "repr h1 a (snd kv)" .
  then have "repr h2 a (snd kv)" unfolding ys by (rule repr_append)
  moreover from "6.IH"(2)[OF a[symmetric] e] have "repr_entries h2 es2 kvs" .
  ultimately show ?case using es h' by simp
qed auto

lemma repr_entries_lookup:
  "repr_entries h es kvs \<Longrightarrow> distinct (map fst kvs) \<Longrightarrow> kv \<in> set kvs \<Longrightarrow>
     \<exists>x. map_of es (fst kv) = Some x \<and> repr h x (snd kv)"
proof (induction es arbitrary: kvs)
  case Nil
  then show ?case by (cases kvs) auto
next
  case (Cons e es)
  from Cons.prems(1) obtain kv' kvs' where kvs: "kvs = kv' # kvs'" by (cases kvs) auto
  with Cons.prems(1) have h: "fst e = fst kv'" "repr h (snd e) (snd kv')" "repr_entries h es kvs'"
    by simp_all
  show ?case
  proof (cases "kv = kv'")
    case True
    with h show ?thesis by (cases e) auto
  next
    case False
    with Cons.prems kvs have in': "kv \<in> set kvs'" and d: "distinct (map fst kvs')"
      and ne: "fst kv \<noteq> fst kv'" by (auto simp: image_iff)
    from Cons.IH[OF h(3) d in'] ne h(1) show ?thesis by (cases e) auto
  qed
qed

lemma repr_frame:
  "repr h a v \<Longrightarrow>
     \<forall>i. n \<le> i \<and> i < length h \<longrightarrow> h' ! i = h ! i \<and> fresh_ok n (length h) (h ! i) \<Longrightarrow>
     length h' = length h \<Longrightarrow> n \<le> a \<Longrightarrow> repr h' a v"
  "repr_entries h es kvs \<Longrightarrow>
     \<forall>i. n \<le> i \<and> i < length h \<longrightarrow> h' ! i = h ! i \<and> fresh_ok n (length h) (h ! i) \<Longrightarrow>
     length h' = length h \<Longrightarrow> \<forall>e\<in>set es. n \<le> snd e \<Longrightarrow> repr_entries h' es kvs"
proof (induction h a v and h es kvs rule: repr_repr_entries.induct)
  case (4 h a dd kvs)
  from "4.prems"(1) obtain es where a: "a < length h" and obj: "h ! a = PDict dd es"
    and re: "repr_entries h es kvs"
    by (auto split: pyobj.splits)
  from "4.prems"(2,4) a have same: "h' ! a = h ! a" and fr: "fresh_ok n (length h) (h ! a)"
    by simp_all
  from fr obj have "\<forall>e\<in>set es. n \<le> snd e" by simp
  with "4.IH"[OF obj re "4.prems"(2,3)] have "repr_entries h' es kvs" .
  then show ?case using a same obj "4.prems"(3) by simp
qed auto

subsection \<open>The loop of save\<close>

lemma updated_with_idem:
  "distinct (map fst ves) \<Longrightarrow> updated_with ves (updated_with ves obj) = updated_with ves obj"
  by (cases obj) (simp_all add: entries_update_idem)

lemma is_dict_updated_with [simp]: "is_dict (updated_with ves obj) = is_dict obj"
  by (cases obj) simp_all

lemma save_step_new:
  "h ! r = PDict dd es \<Longrightarrow> map_of es ns = None \<Longrightarrow>
     save_step va (h, r) ns = Inr (h[r := PDict dd (AList.update ns va es)], r)"
  by (simp add: save_step_def)

lemma save_step_old:
  "h ! r = PDict dd es \<Longrightarrow> map_of es ns = Some a \<Longrightarrow> is_dict (h ! a) \<Longrightarrow>
     h ! va = PDict dv ves \<Longrightarrow>
     save_step va (h, r) ns = Inr (h[a := updated_with ves (h ! a)], r)"
  by (cases "h ! a") (simp_all add: save_step_def)

lemma save_loop_char:
  assumes "h ! r = PDict dd es" and "r < length h" and "va < length h" and "va \<noteq> r"
    and "h ! va = PDict dv ves" and "distinct (map fst ves)" and "distinct nss"
    and "\<forall>ns\<in>set nss. \<forall>a. map_of es ns = Some a \<longrightarrow> a \<noteq> r \<and> a \<noteq> va \<and> a < length h \<and> is_dict (h ! a)"
  shows "\<exists>h2 es2. save_loop va (h, r) nss = Inr (h2, r) \<and> length h2 = length h \<and>
           h2 ! r = PDict dd es2 \<and>
           (\<forall>k. map_of es2 k = (if map_of es k = None \<and> k \<in> set nss then Some va else map_of es k)) \<and>
           (\<forall>a. a \<noteq> r \<longrightarrow> h2 ! a = (if \<exists>ns\<in>set nss. map_of es ns = Some a
                                         then updated_with ves (h ! a) else h ! a))"
  using assms
proof (induction nss arbitrary: h es)
  case Nil
  then show ?case by simp
next
  case (Cons ns nss)
  note root = Cons.prems(1) and r = Cons.prems(2) and va = Cons.prems(3) and var = Cons.prems(4)
    and vobj = Cons.prems(5) and dv = Cons.prems(6)
  from Cons.prems(7) have dn: "distinct nss" and nn: "ns \<notin> set nss" by simp_all
  show ?case
  proof (cases "map_of es ns")
    case None
    let ?es' = "AList.update ns va es"
    let ?h' = "h[r := PDict dd ?es']"
    have step: "save_step va (h, r) ns = Inr (?h', r)" using root None by (rule save_step_new)
    have m: "\<And>k. map_of ?es' k = (if k = ns then Some va else map_of es k)"
      by (simp add: update_conv')
    have 1: "?h' ! r = PDict dd ?es'" using r by simp
    have 5: "?h' ! va = PDict dv ves" using var vobj by simp
    have 8: "\<forall>ns'\<in>set nss. \<forall>a. map_of ?es' ns' = Some a \<longrightarrow>
               a \<noteq> r \<and> a \<noteq> va \<and> a < length ?h' \<and> is_dict (?h' ! a)"
    proof (intro ballI allI impI)
      fix ns' a assume ns': "ns' \<in> set nss" and a: "map_of ?es' ns' = Some a"
      from ns' nn have "ns' \<noteq> ns" by auto
      with a m have "map_of es ns' = Some a" by simp
      with Cons.prems(8) ns' have "a \<noteq> r \<and> a \<noteq> va \<and> a < length h \<and> is_dict (h ! a)" by simp
      then show "a \<noteq> r \<and> a \<noteq> va \<and> a < length ?h' \<and> is_dict (?h' ! a)" by simp
    qed
    from Cons.IH[OF 1 _ _ var 5 dv dn 8] r va
    obtain h2 es2 where l: "save_loop va (?h', r) nss = Inr (h2, r)" and len: "length h2 = length h"
      and r2: "h2 ! r = PDict dd es2"
      and m2: "\<forall>k. map_of es2 k = (if map_of ?es' k = None \<and> k \<in> set nss then Some va else map_of ?es' k)"
      and o2: "\<forall>a. a \<noteq> r \<longrightarrow> h2 ! a = (if \<exists>ns'\<in>set nss. map_of ?es' ns' = Some a
                                         then updated_with ves (?h' ! a) else ?h' ! a)"
      by auto
    have "save_loop va (h, r) (ns # nss) = Inr (h2, r)" using step l by simp
    moreover have "\<forall>k. map_of es2 k
        = (if map_of es k = None \<and> k \<in> set (ns # nss) then Some va else map_of es k)"
      using m2 m None by auto
    moreover have "\<forall>a. a \<noteq> r \<longrightarrow> h2 ! a = (if \<exists>ns'\<in>set (ns # nss). map_of es ns' = Some a
                                         then updated_with ves (h ! a) else h ! a)"
    proof (intro allI impI)
      fix a assume ar: "a \<noteq> r"
      have "\<And>ns'. ns' \<in> set nss \<Longrightarrow> map_of ?es' ns' = map_of es ns'"
        using m nn by auto
      then have "(\<exists>ns'\<in>set nss. map_of ?es' ns' = Some a) = (\<exists>ns'\<in>set nss. map_of es ns' = Some a)"
        by (simp cong: bex_cong)
      also have "\<dots> = (\<exists>ns'\<in>set (ns # nss). map_of es ns' = Some a)"
        using None by simp
      finally have "(\<exists>ns'\<in>set nss. map_of ?es' ns' = Some a) = (\<exists>ns'\<in>set (ns # nss). map_of es ns' = Some a)" .
      with o2 ar show "h2 ! a = (if \<exists>ns'\<in>set (ns # nss). map_of es ns' = Some a
                                         then updated_with ves (h ! a) else h ! a)"
        by simp
    qed
    ultimately show ?thesis using len r2 by blast
  next
    case (Some a0)
    with Cons.prems(8) have a0: "a0 \<noteq> r" "a0 \<noteq> va" "a0 < length h" "is_dict (h ! a0)" by simp_all
    let ?h' = "h[a0 := updated_with ves (h ! a0)]"
    have step: "save_step va (h, r) ns = Inr (?h', r)"
      using root Some a0(4) vobj by (rule save_step_old)
    have 1: "?h' ! r = PDict dd es" using root a0(1) by simp
    have 5: "?h' ! va = PDict dv ves" using vobj a0(2) by simp
    have 8: "\<forall>ns'\<in>set nss. \<forall>a. map_of es ns' = Some a \<longrightarrow>
               a \<noteq> r \<and> a \<noteq> va \<and> a < length ?h' \<and> is_dict (?h' ! a)"
    proof (intro ballI allI impI)
      fix ns' a assume ns': "ns' \<in> set nss" and a: "map_of es ns' = Some a"
      with Cons.prems(8) have "a \<noteq> r \<and> a \<noteq> va \<and> a < length h \<and> is_dict (h ! a)" by simp
      then show "a \<noteq> r \<and> a \<noteq> va \<and> a < length ?h' \<and> is_dict (?h' ! a)"
        by (cases "a = a0") simp_all
    qed
    from Cons.IH[OF 1 _ _ var 5 dv dn 8] r va
    obtain h2 es2 where l: "save_loop va (?h', r) nss = Inr (h2, r)" and len: "length h2 = length h"
      and r2: "h2 ! r = PDict dd es2"
      and m2: "\<forall>k. map_of es2 k = (if map_of es k = None \<and> k \<in> set nss then Some va else map_of es k)"
      and o2: "\<forall>a. a \<noteq> r \<longrightarrow> h2 ! a = (if \<exists>ns'\<in>set nss. map_of es ns' = Some a
                                         then updated_with ves (?h' ! a) else ?h' ! a)"
      by auto
    have "save_loop va (h, r) (ns # nss) = Inr (h2, r)" using step l by simp
    moreover have "\<forall>k. map_of es2 k
        = (if map_of es k = None \<and> k \<in> set (ns # nss) then Some va else map_of es k)"
      using m2 Some by auto
    moreover have "\<forall>a. a \<noteq> r \<longrightarrow> h2 ! a = (if \<exists>ns'\<in>set (ns # nss). map_of es ns' = Some a
                                         then updated_with ves (h ! a) else h ! a)"
    proof (intro allI impI)
      fix a assume ar: "a \<noteq> r"
      show "h2 ! a = (if \<exists>ns'\<in>set (ns # nss). map_of es ns' = Some a
                                         then updated_with ves (h ! a) else h ! a)"
      proof (cases "a = a0")
        case True
        have "?h' ! a0 = updated_with ves (h ! a0)" using a0(3) by simp
        then have "h2 ! a0 = updated_with ves (h ! a0)"
          using o2 ar True updated_with_idem[OF dv] by auto
        then show ?thesis using True Some by auto
      next
        case False
        then have "?h' ! a = h ! a" by simp
        moreover have "(\<exists>ns'\<in>set (ns # nss). map_of es ns' = Some a)
            = (\<exists>ns'\<in>set nss. map_of es ns' = Some a)"
          using Some False by auto
        ultimately show ?thesis using o2 ar by simp
      qed
    qed
    ultimately show ?thesis using len r2 by blast
  qed
qed

subsection \<open>Saving and loading again\<close>

lemma set_dict_keys [simp]: "set (dict_keys nss) = set nss"
  by (simp add: dict_keys_def)

lemma distinct_dict_keys [simp]: "distinct (dict_keys nss)"
  by (simp add: dict_keys_def)

lemma load_no_global:
  "cache_file s = Some (Unpickles h r) \<Longrightarrow> h ! r = PDict dd es \<Longrightarrow> map_of es ''global'' = None \<Longrightarrow>
     load s = Inr (h, r)"
  by (simp add: load_def)

lemma load_global:
  "cache_file s = Some (Unpickles h r) \<Longrightarrow> h ! r = PDict dd es \<Longrightarrow> map_of es ''global'' = Some g \<Longrightarrow>
     h ! g = PDict dg ges \<Longrightarrow>
     load s = Inr (h[r := PDict dd (entries_update ges es)], r)"
  by (simp add: load_def)

lemma map_of_entries_update_distinct:
  "distinct (map fst other) \<Longrightarrow>
     map_of (entries_update other es) k =
       (case map_of other k of Some a \<Rightarrow> Some a | None \<Rightarrow> map_of es k)"
  by (simp add: map_of_entries_update map_of_rev_distinct)

lemma map_of_entries_update_other:
  "k \<notin> fst ` set other \<Longrightarrow> map_of (entries_update other es) k = map_of es k"
proof -
  assume "k \<notin> fst ` set other"
  then have "k \<notin> fst ` set (rev other)" by simp
  then have "map_of (rev other) k = None" by (simp add: map_of_eq_None_iff)
  then show ?thesis by (simp add: map_of_entries_update)
qed

lemma alloc_dict:
  assumes "alloc (VDict dd kvs) h = (va, h1)"
  obtains ves h0 where "alloc_entries kvs h = (ves, h0)" and "h1 = h0 @ [PDict dd ves]"
    and "va = length h0"
proof -
  obtain ves h0 where e: "alloc_entries kvs h = (ves, h0)" by (cases "alloc_entries kvs h")
  with assms have "h1 = h0 @ [PDict dd ves]" "va = length h0" by auto
  with e show thesis by (rule that)
qed

lemma save_result:
  assumes "vs \<noteq> []" and "load s = Inr (h, r)" and "alloc (VDict False vs) h = (va, h1)"
    and "save_loop va (h1, r) (dict_keys nss) = Inr d"
  shows "save (Some vs) (Some nss) s = Inr (priv_save d s)"
proof -
  from assms(1) obtain kv kvs where "vs = kv # kvs" by (cases vs) auto
  with assms(2-4) show ?thesis by (simp add: save_def del: alloc.simps)
qed

text \<open>
  C1, as stated: after \<^verbatim>\<open>save(variables, namespaces)\<close> with non-empty arguments, \<^verbatim>\<open>load()\<close> binds
  each listed namespace to a dictionary that contains every pair of \<^verbatim>\<open>variables\<close>. It fails
  without a cache file for \<^verbatim>\<open>save({"global": 1}, ["global"])\<close>: the file then holds
  \<^verbatim>\<open>{"global": {"global": 1}}\<close>, and \<^verbatim>\<open>load\<close> stores the entries of the global namespace at the
  top level, so it returns \<^verbatim>\<open>{"global": 1}\<close>, where the listed namespace is bound to the
  integer 1.
\<close>

theorem save_global_variable_counterexample:
  "bind_err (save (Some [(''global'', VInt 1)]) (Some [''global'']) no_file) load
     = Inr ([PDict True [(''global'', 1)], PInt 1, PDict False [(''global'', 1)]], 0)"
  by (simp add: sm_defs)

text \<open>
  C1, amended. Let the cache file be absent or well formed, let \<^verbatim>\<open>load()\<close> succeed, and let
  \<^verbatim>\<open>variables\<close> be a non-empty dictionary. Suppose that
  \<^item> every listed namespace that the mapping returned by \<^verbatim>\<open>load()\<close> has already is bound to a
    dictionary, other than the mapping itself;
  \<^item> the \<^verbatim>\<open>"global"\<close> entry of that mapping, if there is one, is a dictionary, other than the
    mapping itself, and no listed namespace is the name of one of its variables;
  \<^item> when \<^verbatim>\<open>"global"\<close> is listed, or a listed namespace is bound to the same dictionary as
    \<^verbatim>\<open>"global"\<close>, no listed namespace is a key of \<^verbatim>\<open>variables\<close>.

  Then \<^verbatim>\<open>save(variables, namespaces)\<close> does not raise, and the following \<^verbatim>\<open>load()\<close> returns a
  mapping in which each listed namespace is bound to a dictionary that contains every
  key/value pair of \<^verbatim>\<open>variables\<close> and binds every other key as the namespace did before.
\<close>

theorem save_then_load:
  assumes ok: "persisted_ok s"
    and vs: "vs \<noteq> []" "wf_val (VDict False vs)"
    and l: "load s = Inr (h, r)" and root: "h ! r = PDict dd es"
    and dicts: "\<forall>ns\<in>set nss. \<forall>a. map_of es ns = Some a \<longrightarrow> a \<noteq> r \<and> is_dict (h ! a)"
    and glob: "\<forall>g. map_of es ''global'' = Some g \<longrightarrow>
                 g \<noteq> r \<and> (\<exists>dg ges. h ! g = PDict dg ges \<and> set nss \<inter> fst ` set ges = {})"
    and touched: "''global'' \<in> set nss \<or>
                  (\<exists>ns\<in>set nss. \<exists>g. map_of es ns = Some g \<and> map_of es ''global'' = Some g)
                  \<longrightarrow> set nss \<inter> fst ` set vs = {}"
  shows "\<exists>s1 h1 es1. save (Some vs) (Some nss) s = Inr s1 \<and> load s1 = Inr (h1, r) \<and>
           h1 ! r = PDict dd es1 \<and>
           (\<forall>ns\<in>set nss. \<exists>a dn d. map_of es1 ns = Some a \<and> h1 ! a = PDict dn d \<and>
              (\<forall>kv\<in>set vs. \<exists>x. map_of d (fst kv) = Some x \<and> repr h1 x (snd kv)) \<and>
              (\<forall>a0 d0 e0 k. map_of es ns = Some a0 \<and> h ! a0 = PDict d0 e0 \<and> k \<notin> fst ` set vs
                 \<longrightarrow> map_of d k = map_of e0 k))"
proof -
  txt \<open>the data that \<open>load\<close> returned\<close>
  from load_wf[OF ok l] have w: "wf_data (h, r)" .
  then have wh: "wf_heap h" and r: "r < length h" by (simp_all add: wf_data_def)
  from wf_heap_nth[OF wh r] root have rng: "\<forall>e\<in>set es. snd e < length h" by simp
  have inrange: "\<And>k a. map_of es k = Some a \<Longrightarrow> a < length h"
    using rng by (rule map_of_in_range)
  txt \<open>the objects of \<open>variables\<close>\<close>
  obtain va h1 where al: "alloc (VDict False vs) h = (va, h1)"
    by (cases "alloc (VDict False vs) h")
  from al obtain ves h0 where ae: "alloc_entries vs h = (ves, h0)"
    and h1: "h1 = h0 @ [PDict False ves]" and va: "va = length h0"
    by (rule alloc_dict)
  from alloc_grows(2)[OF ae] obtain xs where h0: "h0 = h @ xs"
    and keys: "map fst ves = map fst vs"
    and vrng: "\<forall>e\<in>set ves. length h \<le> snd e \<and> snd e < length h0"
    by blast
  from alloc_grows(1)[OF al] vs(2)
  have fresh: "\<forall>i. length h \<le> i \<and> i < length h1 \<longrightarrow> fresh_ok (length h) (length h1) (h1 ! i)"
    by blast
  from vs(2) have dvs: "distinct (map fst vs)" by simp
  with keys have dves: "distinct (map fst ves)" by simp
  have kset: "fst ` set ves = fst ` set vs"
    using keys by (metis set_map)
  from alloc_repr(2)[OF ae] have "repr_entries h0 ves vs" .
  then have rep1: "repr_entries h1 ves vs" unfolding h1 by (rule repr_append)
  have old: "\<And>a. a < length h \<Longrightarrow> h1 ! a = h ! a"
    by (simp add: h1 h0 nth_append)
  have len1: "length h \<le> va" "va < length h1" by (simp_all add: va h0 h1)
  have var: "va \<noteq> r" using r len1 by simp
  have vobj: "h1 ! va = PDict False ves" by (simp add: h1 va)
  have root1: "h1 ! r = PDict dd es" using old[OF r] root by simp
  txt \<open>the loop\<close>
  have pre: "\<forall>ns\<in>set (dict_keys nss). \<forall>a. map_of es ns = Some a \<longrightarrow>
               a \<noteq> r \<and> a \<noteq> va \<and> a < length h1 \<and> is_dict (h1 ! a)"
  proof (intro ballI allI impI)
    fix ns a assume ns: "ns \<in> set (dict_keys nss)" and a: "map_of es ns = Some a"
    from inrange[OF a] have lt: "a < length h" .
    from ns a dicts have "a \<noteq> r" "is_dict (h ! a)" by simp_all
    with lt old[OF lt] len1 show "a \<noteq> r \<and> a \<noteq> va \<and> a < length h1 \<and> is_dict (h1 ! a)"
      by simp
  qed
  from save_loop_char[OF root1 _ len1(2) var vobj dves distinct_dict_keys pre] r len1
  obtain h2 es2 where loop: "save_loop va (h1, r) (dict_keys nss) = Inr (h2, r)"
    and len2: "length h2 = length h1" and root2: "h2 ! r = PDict dd es2"
    and m2: "\<And>k. map_of es2 k = (if map_of es k = None \<and> k \<in> set nss then Some va else map_of es k)"
    and o2: "\<And>a. a \<noteq> r \<Longrightarrow> h2 ! a = (if \<exists>ns\<in>set nss. map_of es ns = Some a
                                         then updated_with ves (h1 ! a) else h1 ! a)"
    by auto
  let ?s1 = "priv_save (h2, r) s"
  have sv: "save (Some vs) (Some nss) s = Inr ?s1"
    using vs(1) l al loop by (rule save_result)
  have fl: "cache_file ?s1 = Some (Unpickles h2 r)" by (simp add: priv_save_def)
  have newobj: "\<And>i. length h \<le> i \<Longrightarrow> h2 ! i = h1 ! i"
  proof -
    fix i assume i: "length h \<le> i"
    then have "i \<noteq> r" using r by simp
    moreover have "\<not> (\<exists>ns\<in>set nss. map_of es ns = Some i)"
      using inrange i by fastforce
    ultimately show "h2 ! i = h1 ! i" using o2 by simp
  qed
  txt \<open>the second \<open>load\<close>\<close>
  have ld: "\<exists>h3 es1. load ?s1 = Inr (h3, r) \<and> h3 ! r = PDict dd es1 \<and> length h3 = length h2 \<and>
              (\<forall>a. a \<noteq> r \<longrightarrow> h3 ! a = h2 ! a) \<and> (\<forall>ns\<in>set nss. map_of es1 ns = map_of es2 ns)"
  proof (cases "map_of es2 ''global''")
    case None
    with fl root2 have "load ?s1 = Inr (h2, r)" by (rule load_no_global)
    with root2 show ?thesis by blast
  next
    case (Some gf)
    have "\<exists>dgf gesf. h2 ! gf = PDict dgf gesf \<and> set nss \<inter> fst ` set gesf = {}"
    proof (cases "map_of es ''global''")
      case None
      with Some m2[of "''global''"] have g: "''global'' \<in> set nss" "gf = va"
        by (auto split: if_splits)
      from g(1) touched have "set nss \<inter> fst ` set vs = {}" by blast
      moreover have "h2 ! va = PDict False ves" using newobj[OF len1(1)] vobj by simp
      ultimately show ?thesis using g(2) kset by auto
    next
      case (Some g)
      with \<open>map_of es2 ''global'' = Some gf\<close> m2[of "''global''"] have gf: "gf = g" by simp
      from glob Some obtain dg ges where gr: "g \<noteq> r" and gobj: "h ! g = PDict dg ges"
        and disj: "set nss \<inter> fst ` set ges = {}"
        by blast
      from inrange[OF Some] have "h1 ! g = PDict dg ges" using old gobj by simp
      show ?thesis
      proof (cases "\<exists>ns\<in>set nss. map_of es ns = Some g")
        case True
        with Some touched have "set nss \<inter> fst ` set vs = {}" by blast
        moreover have "h2 ! g = PDict dg (entries_update ves ges)"
          using o2[OF gr] True \<open>h1 ! g = PDict dg ges\<close> by simp
        ultimately show ?thesis using gf disj kset by (auto simp: keys_entries_update)
      next
        case False
        then have "h2 ! g = PDict dg ges" using o2[OF gr] \<open>h1 ! g = PDict dg ges\<close> by simp
        with gf disj show ?thesis by auto
      qed
    qed
    then obtain dgf gesf where gobj: "h2 ! gf = PDict dgf gesf"
      and disj: "set nss \<inter> fst ` set gesf = {}"
      by blast
    from fl root2 Some gobj
    have "load ?s1 = Inr (h2[r := PDict dd (entries_update gesf es2)], r)" by (rule load_global)
    moreover have "h2[r := PDict dd (entries_update gesf es2)] ! r = PDict dd (entries_update gesf es2)"
      using r len2 len1 by simp
    moreover have "\<forall>ns\<in>set nss. map_of (entries_update gesf es2) ns = map_of es2 ns"
      using disj by (auto intro: map_of_entries_update_other)
    ultimately show ?thesis by (intro exI[of _ "h2[r := PDict dd (entries_update gesf es2)]"]
          exI[of _ "entries_update gesf es2"]) simp
  qed
  then obtain h3 es1 where ld3: "load ?s1 = Inr (h3, r)" and root3: "h3 ! r = PDict dd es1"
    and len3: "length h3 = length h2" and o3: "\<And>a. a \<noteq> r \<Longrightarrow> h3 ! a = h2 ! a"
    and m3: "\<And>ns. ns \<in> set nss \<Longrightarrow> map_of es1 ns = map_of es2 ns"
    by blast
  txt \<open>the values of \<open>variables\<close> are where they were built\<close>
  have fr: "\<forall>i. length h \<le> i \<and> i < length h1 \<longrightarrow>
              h3 ! i = h1 ! i \<and> fresh_ok (length h) (length h1) (h1 ! i)"
  proof (intro allI impI)
    fix i assume i: "length h \<le> i \<and> i < length h1"
    then have "i \<noteq> r" using r by simp
    then have "h3 ! i = h1 ! i" using o3 newobj i by simp
    with fresh i show "h3 ! i = h1 ! i \<and> fresh_ok (length h) (length h1) (h1 ! i)" by simp
  qed
  have "repr_entries h3 ves vs"
    using rep1 fr by (rule repr_frame(2)) (use len3 len2 vrng in auto)
  then have pairs: "\<And>kv. kv \<in> set vs \<Longrightarrow> \<exists>x. map_of ves (fst kv) = Some x \<and> repr h3 x (snd kv)"
    using dvs by (rule repr_entries_lookup)
  txt \<open>each listed namespace\<close>
  have "\<forall>ns\<in>set nss. \<exists>a dn d. map_of es1 ns = Some a \<and> h3 ! a = PDict dn d \<and>
              (\<forall>kv\<in>set vs. \<exists>x. map_of d (fst kv) = Some x \<and> repr h3 x (snd kv)) \<and>
              (\<forall>a0 d0 e0 k. map_of es ns = Some a0 \<and> h ! a0 = PDict d0 e0 \<and> k \<notin> fst ` set vs
                 \<longrightarrow> map_of d k = map_of e0 k)"
  proof
    fix ns assume ns: "ns \<in> set nss"
    show "\<exists>a dn d. map_of es1 ns = Some a \<and> h3 ! a = PDict dn d \<and>
              (\<forall>kv\<in>set vs. \<exists>x. map_of d (fst kv) = Some x \<and> repr h3 x (snd kv)) \<and>
              (\<forall>a0 d0 e0 k. map_of es ns = Some a0 \<and> h ! a0 = PDict d0 e0 \<and> k \<notin> fst ` set vs
                 \<longrightarrow> map_of d k = map_of e0 k)"
    proof (cases "map_of es ns")
      case None
      with m3[OF ns] m2[of ns] ns have "map_of es1 ns = Some va" by simp
      moreover have "h3 ! va = PDict False ves" using o3[OF var] newobj[OF len1(1)] vobj by simp
      ultimately show ?thesis using pairs None by auto
    next
      case (Some a0)
      with dicts ns have a0r: "a0 \<noteq> r" and "is_dict (h ! a0)" by simp_all
      then obtain d0 e0 where obj: "h ! a0 = PDict d0 e0" by (cases "h ! a0") auto
      from inrange[OF Some] have "h1 ! a0 = PDict d0 e0" using old obj by simp
      then have "h2 ! a0 = PDict d0 (entries_update ves e0)"
        using o2[OF a0r] ns Some by auto
      then have obj3: "h3 ! a0 = PDict d0 (entries_update ves e0)" using o3[OF a0r] by simp
      have "map_of es1 ns = Some a0" using m3[OF ns] m2[of ns] Some by simp
      moreover have "\<forall>kv\<in>set vs. \<exists>x. map_of (entries_update ves e0) (fst kv) = Some x \<and> repr h3 x (snd kv)"
      proof
        fix kv assume "kv \<in> set vs"
        from pairs[OF this] obtain x where "map_of ves (fst kv) = Some x" "repr h3 x (snd kv)"
          by blast
        then show "\<exists>x. map_of (entries_update ves e0) (fst kv) = Some x \<and> repr h3 x (snd kv)"
          by (simp add: map_of_entries_update_distinct[OF dves])
      qed
      moreover have "\<forall>a0' d0' e0' k. map_of es ns = Some a0' \<and> h ! a0' = PDict d0' e0'
          \<and> k \<notin> fst ` set vs \<longrightarrow> map_of (entries_update ves e0) k = map_of e0' k"
        using Some obj kset by (auto simp: map_of_entries_update_other)
      ultimately show ?thesis using obj3 by blast
    qed
  qed
  with sv ld3 root3 show ?thesis by blast
qed

theorem save_then_load_witness:
  "\<exists>s1 h1 es1.
     save (Some [(''theme'', VStr ''dark'')]) (Some [''prefs'', ''session''])
       (state_manager logged_in_router) = Inr s1 \<and>
     load s1 = Inr (h1, 0) \<and> h1 ! 0 = PDict True es1 \<and>
     (\<forall>ns\<in>set [''prefs'', ''session'']. \<exists>a dn d. map_of es1 ns = Some a \<and> h1 ! a = PDict dn d \<and>
        (\<forall>kv\<in>set [(''theme'', VStr ''dark'')]. \<exists>x. map_of d (fst kv) = Some x \<and> repr h1 x (snd kv)) \<and>
        (\<forall>a0 d0 e0 k. map_of [(''session'', 3), (''global'', 5), (''current_page'', 6)] ns = Some a0 \<and>
             [PDict True [(''session'', 3), (''global'', 5), (''current_page'', 6)],
              PStr ''u'', PStr ''t'', PDict False [(''username'', 1), (''token'', 2)], PInt 0,
              PDict False [(''current_page'', 6)], PInt 1, PDict False [(''current_page'', 6)]] ! a0
               = PDict d0 e0 \<and>
             k \<notin> fst ` set [(''theme'', VStr ''dark'')]
           \<longrightarrow> map_of d k = map_of e0 k))"
proof -
  let ?s = "state_manager logged_in_router"
  let ?es = "[(''session'', 3::nat), (''global'', 5), (''current_page'', 6)]"
  let ?h = "[PDict True ?es, PStr ''u'', PStr ''t'', PDict False [(''username'', 1), (''token'', 2)],
             PInt 0, PDict False [(''current_page'', 6)], PInt 1, PDict False [(''current_page'', 6)]]"
  have ok: "persisted_ok ?s"
    by (simp add: logged_in_router_def persisted_ok_def wf_data_def wf_heap_def)
  have vs: "[(''theme'', VStr ''dark'')] \<noteq> []" "wf_val (VDict False [(''theme'', VStr ''dark'')])"
    by simp_all
  have l: "load ?s = Inr (?h, 0)" by (simp add: logged_in_router_def sm_defs)
  have root: "?h ! 0 = PDict True ?es" by simp
  have dicts: "\<forall>ns\<in>set [''prefs'', ''session'']. \<forall>a. map_of ?es ns = Some a \<longrightarrow> a \<noteq> 0 \<and> is_dict (?h ! a)"
    by simp
  have glob: "\<forall>g. map_of ?es ''global'' = Some g \<longrightarrow>
                 g \<noteq> 0 \<and> (\<exists>dg ges. ?h ! g = PDict dg ges \<and> set [''prefs'', ''session''] \<inter> fst ` set ges = {})"
    by auto
  have touched: "''global'' \<in> set [''prefs'', ''session''] \<or>
                  (\<exists>ns\<in>set [''prefs'', ''session'']. \<exists>g. map_of ?es ns = Some g \<and> map_of ?es ''global'' = Some g)
                  \<longrightarrow> set [''prefs'', ''session''] \<inter> fst ` set [(''theme'', VStr ''dark'')] = {}"
    by simp
  show ?thesis by (rule save_then_load[OF ok vs l root dicts glob touched])
qed

subsection \<open>The effect of save on the file\<close>

lemma save_effect:
  assumes ok: "persisted_ok s"
    and vs: "vs \<noteq> []" "wf_val (VDict False vs)"
    and l: "load s = Inr (h, r)" and root: "h ! r = PDict dd es"
    and dicts: "\<forall>ns\<in>set nss. \<forall>a. map_of es ns = Some a \<longrightarrow> a \<noteq> r \<and> is_dict (h ! a)"
  shows "\<exists>s1 h2 es2 va ves. save (Some vs) (Some nss) s = Inr s1 \<and> persisted_ok s1 \<and>
           cache_file s1 = Some (Unpickles h2 r) \<and> h2 ! r = PDict dd es2 \<and> r < length h \<and>
           length h \<le> va \<and> va < length h2 \<and> h2 ! va = PDict False ves \<and> fst ` set ves = fst ` set vs \<and>
           (\<forall>k a. map_of es k = Some a \<longrightarrow> a < length h) \<and>
           (\<forall>k. map_of es2 k = (if map_of es k = None \<and> k \<in> set nss then Some va else map_of es k)) \<and>
           (\<forall>a. a \<noteq> r \<and> a < length h \<longrightarrow>
              h2 ! a = (if \<exists>ns\<in>set nss. map_of es ns = Some a then updated_with ves (h ! a) else h ! a))"
proof -
  from load_wf[OF ok l] have w: "wf_data (h, r)" .
  then have wh: "wf_heap h" and r: "r < length h" by (simp_all add: wf_data_def)
  from wf_heap_nth[OF wh r] root have rng: "\<forall>e\<in>set es. snd e < length h" by simp
  have inrange: "\<And>k a. map_of es k = Some a \<Longrightarrow> a < length h"
    using rng by (rule map_of_in_range)
  obtain va h1 where al: "alloc (VDict False vs) h = (va, h1)"
    by (cases "alloc (VDict False vs) h")
  from al obtain ves h0 where ae: "alloc_entries vs h = (ves, h0)"
    and h1: "h1 = h0 @ [PDict False ves]" and va: "va = length h0"
    by (rule alloc_dict)
  from alloc_grows(2)[OF ae] obtain xs where h0: "h0 = h @ xs"
    and keys: "map fst ves = map fst vs"
    by blast
  from vs(2) have dvs: "distinct (map fst vs)" by simp
  with keys have dves: "distinct (map fst ves)" by simp
  have kset: "fst ` set ves = fst ` set vs"
    using keys by (metis set_map)
  have old: "\<And>a. a < length h \<Longrightarrow> h1 ! a = h ! a"
    by (simp add: h1 h0 nth_append)
  have len1: "length h \<le> va" "va < length h1" by (simp_all add: va h0 h1)
  have var: "va \<noteq> r" using r len1 by simp
  have vobj: "h1 ! va = PDict False ves" by (simp add: h1 va)
  have root1: "h1 ! r = PDict dd es" using old[OF r] root by simp
  have pre: "\<forall>ns\<in>set (dict_keys nss). \<forall>a. map_of es ns = Some a \<longrightarrow>
               a \<noteq> r \<and> a \<noteq> va \<and> a < length h1 \<and> is_dict (h1 ! a)"
  proof (intro ballI allI impI)
    fix ns a assume ns: "ns \<in> set (dict_keys nss)" and a: "map_of es ns = Some a"
    from inrange[OF a] have lt: "a < length h" .
    from ns a dicts have "a \<noteq> r" "is_dict (h ! a)" by simp_all
    with lt old[OF lt] len1 show "a \<noteq> r \<and> a \<noteq> va \<and> a < length h1 \<and> is_dict (h1 ! a)"
      by simp
  qed
  from save_loop_char[OF root1 _ len1(2) var vobj dves distinct_dict_keys pre] r len1
  obtain h2 es2 where loop: "save_loop va (h1, r) (dict_keys nss) = Inr (h2, r)"
    and len2: "length h2 = length h1" and root2: "h2 ! r = PDict dd es2"
    and m2: "\<And>k. map_of es2 k = (if map_of es k = None \<and> k \<in> set nss then Some va else map_of es k)"
    and o2: "\<And>a. a \<noteq> r \<Longrightarrow> h2 ! a = (if \<exists>ns\<in>set nss. map_of es ns = Some a
                                         then updated_with ves (h1 ! a) else h1 ! a)"
    by auto
  let ?s1 = "priv_save (h2, r) s"
  have sv: "save (Some vs) (Some nss) s = Inr ?s1"
    using vs(1) l al loop by (rule save_result)
  have fl: "cache_file ?s1 = Some (Unpickles h2 r)" by (simp add: priv_save_def)
  have "case Some vs of None \<Rightarrow> True | Some vs \<Rightarrow> wf_val (VDict False vs)"
    using vs(2) by simp
  with ok have pk: "persisted_ok ?s1" using sv by (rule save_persisted_ok)
  have "\<not> (\<exists>ns\<in>set nss. map_of es ns = Some va)"
    using inrange len1 by fastforce
  then have v2: "h2 ! va = PDict False ves" using o2[OF var] vobj by simp
  have o2': "\<forall>a. a \<noteq> r \<and> a < length h \<longrightarrow>
              h2 ! a = (if \<exists>ns\<in>set nss. map_of es ns = Some a then updated_with ves (h ! a) else h ! a)"
    using o2 old by simp
  show ?thesis
    using sv pk fl root2 r len1(1) len1(2)[folded len2] v2 kset inrange m2 o2' by blast
qed


lemma load_view:
  assumes fl: "cache_file s = Some (Unpickles h r)" and root: "h ! r = PDict dd es"
    and r: "r < length h"
    and g: "\<forall>g. map_of es ''global'' = Some g \<longrightarrow>
              (\<exists>dg ges. h ! g = PDict dg ges \<and> K \<inter> fst ` set ges = {})"
  shows "\<exists>h' es'. load s = Inr (h', r) \<and> h' ! r = PDict dd es' \<and> length h' = length h \<and>
           (\<forall>a. a \<noteq> r \<longrightarrow> h' ! a = h ! a) \<and> (\<forall>k\<in>K. map_of es' k = map_of es k)"
proof (cases "map_of es ''global''")
  case None
  with fl root have "load s = Inr (h, r)" by (rule load_no_global)
  with root show ?thesis by blast
next
  case (Some gf)
  with g obtain dg ges where gobj: "h ! gf = PDict dg ges" and disj: "K \<inter> fst ` set ges = {}"
    by blast
  let ?es' = "entries_update ges es"
  let ?h' = "h[r := PDict dd ?es']"
  from fl root Some gobj have "load s = Inr (?h', r)" by (rule load_global)
  moreover have "?h' ! r = PDict dd ?es'" using r by simp
  moreover have "\<forall>k\<in>K. map_of ?es' k = map_of es k"
    using disj by (auto intro: map_of_entries_update_other)
  ultimately show ?thesis by (intro exI[of _ ?h'] exI[of _ ?es']) simp
qed

lemma session_has_dict:
  assumes "load s = Inr (h, r)" and "h ! r = PDict dd es" and "map_of es ''session'' = Some a"
    and "h ! a = PDict dn d"
  shows "session_has k s = Inr (k \<in> fst ` set d)"
  using assms by (simp add: session_has_def get_session_def map_of_eq_None_iff)

lemma session_has_none:
  assumes "load s = Inr (h, r)" and "h ! r = PDict dd es" and "map_of es ''session'' = None"
  shows "session_has k s = Inr (k = [])"
  using assms by (simp add: session_has_def get_session_def)

lemma is_logged_in_char:
  assumes fl: "cache_file s = Some (Unpickles h r)" and root: "h ! r = PDict dd es"
    and r: "r < length h"
    and glob: "\<forall>g. map_of es ''global'' = Some g \<longrightarrow>
                 (\<exists>dg ges. h ! g = PDict dg ges \<and> ''session'' \<notin> fst ` set ges)"
    and sess: "\<forall>a. map_of es ''session'' = Some a \<longrightarrow> a \<noteq> r \<and> is_dict (h ! a)"
  shows "is_logged_in s = Inr (\<exists>a dn d. map_of es ''session'' = Some a \<and> h ! a = PDict dn d \<and>
            ''username'' \<in> fst ` set d \<and> ''token'' \<in> fst ` set d)"
proof -
  from glob have "\<forall>g. map_of es ''global'' = Some g \<longrightarrow>
              (\<exists>dg ges. h ! g = PDict dg ges \<and> {''session''} \<inter> fst ` set ges = {})"
    by simp
  from load_view[OF fl root r this]
  obtain h' es' where l: "load s = Inr (h', r)" and root': "h' ! r = PDict dd es'"
    and same: "\<And>a. a \<noteq> r \<Longrightarrow> h' ! a = h ! a" and m: "map_of es' ''session'' = map_of es ''session''"
    by auto
  show ?thesis
  proof (cases "map_of es ''session''")
    case None
    with m have "map_of es' ''session'' = None" by simp
    from session_has_none[OF l root' this] None show ?thesis by (simp add: is_logged_in_def)
  next
    case (Some a)
    with sess have ar: "a \<noteq> r" and "is_dict (h ! a)" by simp_all
    then obtain dn d where obj: "h ! a = PDict dn d" by (cases "h ! a") auto
    then have obj': "h' ! a = PDict dn d" using same[OF ar] by simp
    from m Some have m': "map_of es' ''session'' = Some a" by simp
    note sh = session_has_dict[OF l root' m' obj']
    show ?thesis using Some obj by (simp add: is_logged_in_def sh split: bool.split)
  qed
qed

subsection \<open>Logging in\<close>

lemma keys_updated_with:
  "obj = PDict dn d \<Longrightarrow> \<exists>d'. updated_with ves obj = PDict dn d' \<and> fst ` set d' = fst ` set d \<union> fst ` set ves"
  by (simp add: keys_entries_update)

lemma login_logs_in:
  assumes ok: "persisted_ok s" and l: "load s = Inr (h, r)" and root: "h ! r = PDict dd es"
    and sess: "\<forall>a. map_of es ''session'' = Some a \<longrightarrow> a \<noteq> r \<and> is_dict (h ! a)"
    and glob: "\<forall>g. map_of es ''global'' = Some g \<longrightarrow>
                 g \<noteq> r \<and> (\<exists>dg ges. h ! g = PDict dg ges \<and>
                   ''session'' \<notin> fst ` set ges \<and> ''global'' \<notin> fst ` set ges)"
  shows "\<exists>s1 s2. save (Some [(''username'', VStr u), (''token'', VStr t)]) (Some [''session'']) s = Inr s1 \<and>
           change_page 0 s1 = Inr s2 \<and> is_logged_in s2 = Inr True"
proof -
  let ?vs1 = "[(''username'', VStr u), (''token'', VStr t)]"
  txt \<open>the first \<open>save\<close>\<close>
  have d1: "\<forall>ns\<in>set [''session'']. \<forall>a. map_of es ns = Some a \<longrightarrow> a \<noteq> r \<and> is_dict (h ! a)"
    using sess by simp
  have "?vs1 \<noteq> []" "wf_val (VDict False ?vs1)" by simp_all
  from save_effect[OF ok this l root d1]
  obtain s1 h2 es2 va1 ves1 where sv1: "save (Some ?vs1) (Some [''session'']) s = Inr s1"
    and ok1: "persisted_ok s1" and fl1: "cache_file s1 = Some (Unpickles h2 r)"
    and root2: "h2 ! r = PDict dd es2" and r: "r < length h" and va1: "length h \<le> va1" "va1 < length h2"
    and vobj1: "h2 ! va1 = PDict False ves1" and k1: "fst ` set ves1 = {''username'', ''token''}"
    and inrange: "\<And>k a. map_of es k = Some a \<Longrightarrow> a < length h"
    and m2: "\<And>k. map_of es2 k = (if map_of es k = None \<and> k = ''session'' then Some va1 else map_of es k)"
    and o2: "\<And>a. a \<noteq> r \<Longrightarrow> a < length h \<Longrightarrow>
              h2 ! a = (if map_of es ''session'' = Some a then updated_with ves1 (h ! a) else h ! a)"
    by auto
  have r2: "r < length h2" using r va1 by simp
  txt \<open>the session namespace after it\<close>
  have "\<exists>sa dn d. map_of es2 ''session'' = Some sa \<and> sa \<noteq> r \<and> h2 ! sa = PDict dn d \<and>
          {''username'', ''token''} \<subseteq> fst ` set d"
  proof (cases "map_of es ''session''")
    case None
    then have "map_of es2 ''session'' = Some va1" using m2 by simp
    moreover have "va1 \<noteq> r" using r va1 by simp
    ultimately show ?thesis using vobj1 k1 by auto
  next
    case (Some a0)
    with sess have a0: "a0 \<noteq> r" "is_dict (h ! a0)" by simp_all
    then obtain d0 e0 where "h ! a0 = PDict d0 e0" by (cases "h ! a0") auto
    from keys_updated_with[OF this, of ves1]
    obtain d' where "updated_with ves1 (h ! a0) = PDict d0 d'"
      and "fst ` set d' = fst ` set e0 \<union> fst ` set ves1" by blast
    moreover have "h2 ! a0 = updated_with ves1 (h ! a0)"
      using o2[OF a0(1) inrange[OF Some]] Some by simp
    moreover have "map_of es2 ''session'' = Some a0" using m2 Some by simp
    ultimately show ?thesis using a0(1) k1 by auto
  qed
  then obtain sa dn d where ms2: "map_of es2 ''session'' = Some sa" and sar: "sa \<noteq> r"
    and sobj2: "h2 ! sa = PDict dn d" and sk2: "{''username'', ''token''} \<subseteq> fst ` set d"
    by blast
  txt \<open>the global namespace after it\<close>
  have mg2: "map_of es2 ''global'' = map_of es ''global''" using m2 by simp
  have g2: "\<forall>g. map_of es2 ''global'' = Some g \<longrightarrow>
              (\<exists>dg ges. h2 ! g = PDict dg ges \<and> ''session'' \<notin> fst ` set ges \<and> ''global'' \<notin> fst ` set ges)"
  proof (intro allI impI)
    fix g assume "map_of es2 ''global'' = Some g"
    with mg2 have mg: "map_of es ''global'' = Some g" by simp
    with glob obtain dg ges where gr: "g \<noteq> r" and gobj: "h ! g = PDict dg ges"
      and gk: "''session'' \<notin> fst ` set ges" "''global'' \<notin> fst ` set ges"
      by blast
    from keys_updated_with[OF gobj, of ves1]
    obtain d' where "updated_with ves1 (h ! g) = PDict dg d'"
      and "fst ` set d' = fst ` set ges \<union> fst ` set ves1" by blast
    with o2[OF gr inrange[OF mg]] gobj gk k1
    show "\<exists>dg ges. h2 ! g = PDict dg ges \<and> ''session'' \<notin> fst ` set ges \<and> ''global'' \<notin> fst ` set ges"
      by (cases "map_of es ''session'' = Some g") auto
  qed
  txt \<open>\<open>load\<close> in the second \<open>save\<close>\<close>
  from g2 have g2': "\<forall>g. map_of es2 ''global'' = Some g \<longrightarrow>
              (\<exists>dg ges. h2 ! g = PDict dg ges \<and> {''session'', ''global''} \<inter> fst ` set ges = {})"
    by simp
  from load_view[OF fl1 root2 r2 g2']
  obtain h3 es3 where l1: "load s1 = Inr (h3, r)" and root3: "h3 ! r = PDict dd es3"
    and len3: "length h3 = length h2" and o3: "\<And>a. a \<noteq> r \<Longrightarrow> h3 ! a = h2 ! a"
    and ms3: "map_of es3 ''session'' = map_of es2 ''session''"
    and mg3: "map_of es3 ''global'' = map_of es2 ''global''"
    by auto
  let ?vs2 = "[(''current_page'', VInt 0)]"
  have d2: "\<forall>ns\<in>set [''global'']. \<forall>a. map_of es3 ns = Some a \<longrightarrow> a \<noteq> r \<and> is_dict (h3 ! a)"
  proof (intro ballI allI impI)
    fix ns a assume "ns \<in> set [''global'']" and "map_of es3 ns = Some a"
    then have a2: "map_of es2 ''global'' = Some a" using mg3 by simp
    with mg2 glob have ar: "a \<noteq> r" by simp
    from g2[rule_format, OF a2] have "is_dict (h2 ! a)" by auto
    with ar o3[OF ar] show "a \<noteq> r \<and> is_dict (h3 ! a)" by simp
  qed
  have "?vs2 \<noteq> []" "wf_val (VDict False ?vs2)" by simp_all
  from save_effect[OF ok1 this l1 root3 d2]
  obtain s2 h4 es4 va2 ves2 where sv2: "save (Some ?vs2) (Some [''global'']) s1 = Inr s2"
    and fl2: "cache_file s2 = Some (Unpickles h4 r)"
    and root4: "h4 ! r = PDict dd es4" and va2: "length h3 \<le> va2" "va2 < length h4"
    and vobj2: "h4 ! va2 = PDict False ves2" and k2: "fst ` set ves2 = {''current_page''}"
    and inrange3: "\<And>k a. map_of es3 k = Some a \<Longrightarrow> a < length h3"
    and m4: "\<And>k. map_of es4 k = (if map_of es3 k = None \<and> k = ''global'' then Some va2 else map_of es3 k)"
    and o4: "\<And>a. a \<noteq> r \<Longrightarrow> a < length h3 \<Longrightarrow>
              h4 ! a = (if map_of es3 ''global'' = Some a then updated_with ves2 (h3 ! a) else h3 ! a)"
    by auto
  have cp: "change_page 0 s1 = Inr s2" using sv2 by (simp add: change_page_def)
  have r4: "r < length h4" using r2 len3 va2 by simp
  txt \<open>the namespaces in the file at the end\<close>
  have ms4: "map_of es4 ''session'' = Some sa" using m4 ms3 ms2 by simp
  have sa3: "sa < length h3" using inrange3[of "''session''" sa] ms3 ms2 by simp
  have "\<exists>d'. h4 ! sa = PDict dn d' \<and> {''username'', ''token''} \<subseteq> fst ` set d'"
  proof -
    have s3: "h3 ! sa = PDict dn d" using o3[OF sar] sobj2 by simp
    from keys_updated_with[OF s3, of ves2]
    obtain d' where "updated_with ves2 (h3 ! sa) = PDict dn d'"
      and "fst ` set d' = fst ` set d \<union> fst ` set ves2" by blast
    with o4[OF sar sa3] s3 sk2 show ?thesis
      by (cases "map_of es3 ''global'' = Some sa") auto
  qed
  then obtain d4 where sobj4: "h4 ! sa = PDict dn d4"
    and sk4: "{''username'', ''token''} \<subseteq> fst ` set d4"
    by blast
  have g4: "\<forall>g. map_of es4 ''global'' = Some g \<longrightarrow>
              (\<exists>dg ges. h4 ! g = PDict dg ges \<and> {''session''} \<inter> fst ` set ges = {})"
  proof (intro allI impI)
    fix gf assume gf: "map_of es4 ''global'' = Some gf"
    show "\<exists>dg ges. h4 ! gf = PDict dg ges \<and> {''session''} \<inter> fst ` set ges = {}"
    proof (cases "map_of es3 ''global''")
      case None
      with gf m4 have "gf = va2" by simp
      with vobj2 k2 show ?thesis by auto
    next
      case (Some g)
      with gf m4 have gfg: "gf = g" by simp
      from Some mg3 have a2: "map_of es2 ''global'' = Some g" by simp
      with mg2 glob have gr: "g \<noteq> r" by simp
      from g2[rule_format, OF a2] obtain dg ges where "h2 ! g = PDict dg ges"
        and gk: "''session'' \<notin> fst ` set ges" by blast
      then have g3: "h3 ! g = PDict dg ges" using o3[OF gr] by simp
      from keys_updated_with[OF g3, of ves2]
      obtain d' where "updated_with ves2 (h3 ! g) = PDict dg d'"
        and "fst ` set d' = fst ` set ges \<union> fst ` set ves2" by blast
      with o4[OF gr inrange3[OF Some]] Some gk k2 gfg show ?thesis by auto
    qed
  qed
  txt \<open>\<open>load\<close> in \<open>is_logged_in\<close>\<close>
  from load_view[OF fl2 root4 r4 g4]
  obtain h5 es5 where l2: "load s2 = Inr (h5, r)" and root5: "h5 ! r = PDict dd es5"
    and o5: "\<And>a. a \<noteq> r \<Longrightarrow> h5 ! a = h4 ! a"
    and ms5: "map_of es5 ''session'' = map_of es4 ''session''"
    by auto
  have ms5': "map_of es5 ''session'' = Some sa" using ms5 ms4 by simp
  have sobj5: "h5 ! sa = PDict dn d4" using o5[OF sar] sobj4 by simp
  note sh = session_has_dict[OF l2 root5 ms5' sobj5]
  have "is_logged_in s2 = Inr True"
    using sk4 by (simp add: is_logged_in_def sh)
  with sv1 cp show ?thesis by blast
qed

lemma login_unfold:
  assumes "save (Some [(''username'', VStr u), (''token'', VStr t)]) (Some [''session''])
             (state_manager mp) = Inr s1"
    and "change_page 0 s1 = Inr s2"
  shows "login u t mp = Inr (mp\<lparr>state_manager := s2\<rparr>)"
  using assms by (simp add: login_def mp_change_page_def bind_err_def)

text \<open>
  C10, as stated: \<^verbatim>\<open>is_logged_in()\<close> returns true exactly when the persisted session namespace
  exists and has the keys \<^verbatim>\<open>username\<close> and \<^verbatim>\<open>token\<close>. It fails after \<^verbatim>\<open>login("u", "t")\<close> and
  \<^verbatim>\<open>save({"session": 0})\<close>: the file has the session namespace with both keys, but \<^verbatim>\<open>load\<close> puts
  the global variable \<^verbatim>\<open>session\<close> in its place, and \<^verbatim>\<open>"username" in 0\<close> raises \<^verbatim>\<open>TypeError\<close>.
\<close>

theorem global_session_variable_counterexample:
  "bind_err (login ''u'' ''t'' (new_router :: nat MultiPage))
     (\<lambda>mp. save (Some [(''session'', VInt 0)]) None (state_manager mp)) = Inr session_shadowed \<and>
   is_logged_in session_shadowed = Inl TypeError"
  by (simp add: session_shadowed_def new_router_def login_def mp_change_page_def sm_defs)

text \<open>
  C10, amended. Without a cache file \<^verbatim>\<open>is_logged_in()\<close> is false. With a cache file that holds a
  mapping whose \<^verbatim>\<open>"global"\<close> entry, if any, is a dictionary without a variable named
  \<^verbatim>\<open>session\<close>, and whose \<^verbatim>\<open>"session"\<close> entry, if any, is a dictionary other than the mapping
  itself, \<^verbatim>\<open>is_logged_in()\<close> returns true if and only if the persisted session namespace exists
  and has both the key \<^verbatim>\<open>username\<close> and the key \<^verbatim>\<open>token\<close>. And for every username and token,
  \<^verbatim>\<open>login(username, token)\<close> succeeds and \<^verbatim>\<open>is_logged_in()\<close> is true right after it, when it
  starts from a well-formed state on which \<^verbatim>\<open>load()\<close> succeeds with a \<^verbatim>\<open>"session"\<close> entry (if
  any) that is a dictionary other than the mapping itself and a \<^verbatim>\<open>"global"\<close> entry (if any)
  that is a dictionary other than the mapping itself with no variable named \<^verbatim>\<open>session\<close> or
  \<^verbatim>\<open>global\<close>.
\<close>

theorem is_logged_in_session_keys:
  "(cache_file s = None \<longrightarrow> is_logged_in s = Inr False) \<and>
   (\<forall>h r dd es.
      cache_file s = Some (Unpickles h r) \<and> h ! r = PDict dd es \<and> r < length h \<and>
      (\<forall>g. map_of es ''global'' = Some g \<longrightarrow>
         (\<exists>dg ges. h ! g = PDict dg ges \<and> ''session'' \<notin> fst ` set ges)) \<and>
      (\<forall>a. map_of es ''session'' = Some a \<longrightarrow> a \<noteq> r \<and> is_dict (h ! a))
      \<longrightarrow> is_logged_in s = Inr (\<exists>a dn d. map_of es ''session'' = Some a \<and> h ! a = PDict dn d \<and>
              ''username'' \<in> fst ` set d \<and> ''token'' \<in> fst ` set d)) \<and>
   (\<forall>h r dd es.
      persisted_ok (state_manager mp) \<and> load (state_manager mp) = Inr (h, r) \<and>
      h ! r = PDict dd es \<and>
      (\<forall>a. map_of es ''session'' = Some a \<longrightarrow> a \<noteq> r \<and> is_dict (h ! a)) \<and>
      (\<forall>g. map_of es ''global'' = Some g \<longrightarrow>
         g \<noteq> r \<and> (\<exists>dg ges. h ! g = PDict dg ges \<and>
           ''session'' \<notin> fst ` set ges \<and> ''global'' \<notin> fst ` set ges))
      \<longrightarrow> (\<exists>mp'. login username token mp = Inr mp' \<and> is_logged_in (state_manager mp') = Inr True))"
proof (intro conjI allI impI)
  assume "cache_file s = None"
  then show "is_logged_in s = Inr False"
    by (simp add: is_logged_in_def session_has_def load_def empty_data_def get_session_def)
next
  fix h r dd es
  assume a: "cache_file s = Some (Unpickles h r) \<and> h ! r = PDict dd es \<and> r < length h \<and>
      (\<forall>g. map_of es ''global'' = Some g \<longrightarrow>
         (\<exists>dg ges. h ! g = PDict dg ges \<and> ''session'' \<notin> fst ` set ges)) \<and>
      (\<forall>a. map_of es ''session'' = Some a \<longrightarrow> a \<noteq> r \<and> is_dict (h ! a))"
  then have 1: "cache_file s = Some (Unpickles h r)" and 2: "h ! r = PDict dd es"
    and 3: "r < length h"
    and 4: "\<forall>g. map_of es ''global'' = Some g \<longrightarrow>
         (\<exists>dg ges. h ! g = PDict dg ges \<and> ''session'' \<notin> fst ` set ges)"
    and 5: "\<forall>a. map_of es ''session'' = Some a \<longrightarrow> a \<noteq> r \<and> is_dict (h ! a)"
    by blast+
  from 1 2 3 4 5
  show "is_logged_in s = Inr (\<exists>a dn d. map_of es ''session'' = Some a \<and> h ! a = PDict dn d \<and>
              ''username'' \<in> fst ` set d \<and> ''token'' \<in> fst ` set d)"
    by (rule is_logged_in_char)
next
  fix h r dd es
  assume a: "persisted_ok (state_manager mp) \<and> load (state_manager mp) = Inr (h, r) \<and>
      h ! r = PDict dd es \<and>
      (\<forall>a. map_of es ''session'' = Some a \<longrightarrow> a \<noteq> r \<and> is_dict (h ! a)) \<and>
      (\<forall>g. map_of es ''global'' = Some g \<longrightarrow>
         g \<noteq> r \<and> (\<exists>dg ges. h ! g = PDict dg ges \<and>
           ''session'' \<notin> fst ` set ges \<and> ''global'' \<notin> fst ` set ges))"
  then have 1: "persisted_ok (state_manager mp)" and 2: "load (state_manager mp) = Inr (h, r)"
    and 3: "h ! r = PDict dd es"
    and 4: "\<forall>a. map_of es ''session'' = Some a \<longrightarrow> a \<noteq> r \<and> is_dict (h ! a)"
    and 5: "\<forall>g. map_of es ''global'' = Some g \<longrightarrow>
         g \<noteq> r \<and> (\<exists>dg ges. h ! g = PDict dg ges \<and>
           ''session'' \<notin> fst ` set ges \<and> ''global'' \<notin> fst ` set ges)"
    by blast+
  from login_logs_in[OF 1 2 3 4 5, of username token]
  obtain s1 s2 where "save (Some [(''username'', VStr username), (''token'', VStr token)])
      (Some [''session'']) (state_manager mp) = Inr s1"
    and "change_page 0 s1 = Inr s2" and li: "is_logged_in s2 = Inr True"
    by blast
  then have "login username token mp = Inr (mp\<lparr>state_manager := s2\<rparr>)"
    by (intro login_unfold)
  with li show "\<exists>mp'. login username token mp = Inr mp' \<and> is_logged_in (state_manager mp') = Inr True"
    by simp
qed

theorem is_logged_in_session_keys_witness:
  "is_logged_in no_file = Inr False \<and>
   is_logged_in (state_manager logged_in_router) = Inr True \<and>
   (\<exists>mp'. login ''u'' ''t'' logged_in_router = Inr mp' \<and> is_logged_in (state_manager mp') = Inr True)"
proof -
  let ?s = "state_manager logged_in_router"
  let ?es = "[(''session'', 3::nat), (''global'', 5), (''current_page'', 4)]"
  let ?h = "[PDict True ?es, PStr ''u'', PStr ''t'', PDict False [(''username'', 1), (''token'', 2)],
             PInt 0, PDict False [(''current_page'', 6)], PInt 1, PDict False [(''current_page'', 6)]]"
  let ?es' = "[(''session'', 3::nat), (''global'', 5), (''current_page'', 6)]"
  let ?h' = "[PDict True ?es', PStr ''u'', PStr ''t'', PDict False [(''username'', 1), (''token'', 2)],
             PInt 0, PDict False [(''current_page'', 6)], PInt 1, PDict False [(''current_page'', 6)]]"
  note t = is_logged_in_session_keys
  have a: "is_logged_in no_file = Inr False"
    using t[of no_file, THEN conjunct1] by (simp add: no_file_def)
  have "cache_file ?s = Some (Unpickles ?h 0) \<and> ?h ! 0 = PDict True ?es \<and> 0 < length ?h \<and>
      (\<forall>g. map_of ?es ''global'' = Some g \<longrightarrow>
         (\<exists>dg ges. ?h ! g = PDict dg ges \<and> ''session'' \<notin> fst ` set ges)) \<and>
      (\<forall>a. map_of ?es ''session'' = Some a \<longrightarrow> a \<noteq> 0 \<and> is_dict (?h ! a))"
    by (auto simp: logged_in_router_def)
  from t[of ?s, THEN conjunct2, THEN conjunct1, rule_format, OF this]
  have b: "is_logged_in ?s = Inr True" by auto
  have "persisted_ok ?s \<and> load ?s = Inr (?h', 0) \<and> ?h' ! 0 = PDict True ?es' \<and>
      (\<forall>a. map_of ?es' ''session'' = Some a \<longrightarrow> a \<noteq> 0 \<and> is_dict (?h' ! a)) \<and>
      (\<forall>g. map_of ?es' ''global'' = Some g \<longrightarrow>
         g \<noteq> 0 \<and> (\<exists>dg ges. ?h' ! g = PDict dg ges \<and>
           ''session'' \<notin> fst ` set ges \<and> ''global'' \<notin> fst ` set ges))"
    by (auto simp: logged_in_router_def persisted_ok_def wf_data_def wf_heap_def sm_defs)
  from t[where mp = logged_in_router, THEN conjunct2, THEN conjunct2, rule_format, OF this]
  have c: "\<exists>mp'. login ''u'' ''t'' logged_in_router = Inr mp' \<and>
      is_logged_in (state_manager mp') = Inr True" .
  from a b c show ?thesis by simp
qed

subsection \<open>Missing keys that are skipped\<close>

text \<open>
  Where the data returned by \<^verbatim>\<open>load\<close> has dictionaries only at the top level, the missing
  keys are skipped: \<^verbatim>\<open>read_current_page\<close> is 0 when the global namespace has no
  \<^verbatim>\<open>current_page\<close>, and \<^verbatim>\<open>clear_cache\<close> with namespaces or variables that are absent saves
  the data as \<^verbatim>\<open>load\<close> returned it.
\<close>

lemma read_current_page_without_entry:
  assumes "load s = Inr (h, r)" and "h ! r = PDict dd es" and "map_of es ''global'' = Some g"
    and "h ! g = PDict dg ges" and "''current_page'' \<notin> fst ` set ges"
  shows "read_current_page str_int s = Inr 0"
  using assms by (simp add: read_current_page_def subscript_global_def map_of_eq_None_iff)

lemma fold_del_namespace_absent:
  assumes "h ! r = PDict dd es" and "set nss \<inter> fst ` set es = {}"
  shows "fold_err del_namespace nss (h, r) = Inr (h, r)"
  using assms(2)
proof (induction nss)
  case Nil
  then show ?case by simp
next
  case (Cons ns nss)
  then have "map_of es ns = None" by (simp add: map_of_eq_None_iff)
  then have "del_namespace ns (h, r) = Inr (h, r)" using assms(1) by (simp add: del_namespace_def)
  with Cons show ?case by simp
qed

lemma clear_cache_absent_namespaces:
  assumes "load s = Inr (h, r)" and "h ! r = PDict dd es" and "nss \<noteq> []"
    and "set nss \<inter> fst ` set es = {}"
  shows "clear_cache None (Some nss) False s = Inr (priv_save (h, r) s)"
  using assms(1,3) fold_del_namespace_absent[OF assms(2,4)]
  by (simp add: clear_cache_unfold clear_body_def)

lemma fold_del_variable_absent:
  assumes "h ! r = PDict dd es" and "map_of es ns = Some a" and "h ! a = PDict dn d"
    and "set vs \<inter> fst ` set d = {}"
  shows "fold_err (del_variable ns) vs (h, r) = Inr (h, r)"
  using assms(4)
proof (induction vs)
  case Nil
  then show ?case by simp
next
  case (Cons v vs)
  then have "map_of d v = None" by (simp add: map_of_eq_None_iff)
  then have "del_variable ns v (h, r) = Inr (h, r)"
    using assms(1-3) by (simp add: del_variable_def)
  with Cons show ?case by simp
qed

lemma fold_del_variables_absent:
  assumes "h ! r = PDict dd es"
    and "\<forall>ns\<in>set ks. \<exists>a dn d. map_of es ns = Some a \<and> h ! a = PDict dn d \<and> set vs \<inter> fst ` set d = {}"
  shows "fold_err (\<lambda>ns. fold_err (del_variable ns) vs) ks (h, r) = Inr (h, r)"
  using assms(2)
proof (induction ks)
  case Nil
  then show ?case by simp
next
  case (Cons ns ks)
  then obtain a dn d where "map_of es ns = Some a" "h ! a = PDict dn d" "set vs \<inter> fst ` set d = {}"
    by auto
  with assms(1) have "fold_err (del_variable ns) vs (h, r) = Inr (h, r)"
    by (rule fold_del_variable_absent)
  with Cons show ?case by simp
qed

lemma clear_cache_absent_variables:
  assumes "load s = Inr (h, r)" and "h ! r = PDict dd es" and "vs \<noteq> []"
    and "\<forall>ns\<in>fst ` set es. \<exists>a dn d. map_of es ns = Some a \<and> h ! a = PDict dn d \<and>
           fst ` set vs \<inter> fst ` set d = {}"
  shows "clear_cache (Some vs) namespaces False s = Inr (priv_save (h, r) s)"
proof -
  have "fold_err (\<lambda>ns. fold_err (del_variable ns) (map fst vs)) (map fst es) (h, r) = Inr (h, r)"
    using assms(2) by (rule fold_del_variables_absent) (use assms(4) in simp)
  then show ?thesis
    using assms(1-3) by (simp add: clear_cache_unfold clear_body_def)
qed

end
